theory Spec2Isabelle
  imports Main "HOL-Library.Word"
begin

section \<open>Machine integers, slices and the byte heap\<close>

text \<open>
  Go's \<open>int\<close> is modelled for a 64-bit target: a value is an \<open>int\<close> in
  \<open>[-2^63, 2^63)\<close>, and every arithmetic result of the source is wrapped into that
  range by \<open>wrap64\<close>, as two's complement arithmetic does.
\<close>

definition wrap64 :: "int \<Rightarrow> int" where
  "wrap64 x = (x + 2 ^ 63) mod 2 ^ 64 - 2 ^ 63"

definition is_int64 :: "int \<Rightarrow> bool" where
  "is_int64 x = (- (2 ^ 63) \<le> x \<and> x < 2 ^ 63)"

type_synonym byte = "8 word"

text \<open>
  The heap holds the byte arrays created by \<open>make([]byte, c)\<close>; an allocation is named
  by its index in the heap, so two allocations never overlap. A slice is Go's slice
  header: the allocation it points into, the offset of its first byte there, its length
  and its capacity. A \<open>*byte\<close> is an allocation together with an offset.
\<close>

type_synonym heap = "byte list list"

type_synonym ptr = "nat \<times> nat"

record slice =
  sl_alloc :: nat
  sl_off :: nat
  sl_len :: nat
  sl_cap :: nat

datatype error =
    IndexOutOfRange
  | SliceBoundsOutOfRange
  | MakeLenOutOfRange
  | Panic string

text \<open>\<open>&b[0]\<close>: the address of the first byte, a run-time panic on an empty slice.\<close>

definition addr0 :: "slice \<Rightarrow> error + ptr" where
  "addr0 b = (if sl_len b = 0 then Inl IndexOutOfRange else Inr (sl_alloc b, sl_off b))"

text \<open>\<open>b[0:n]\<close>: panics unless \<open>0 \<le> n \<le> cap(b)\<close>.\<close>

definition reslice0 :: "slice \<Rightarrow> int \<Rightarrow> error + slice" where
  "reslice0 b n =
     (if 0 \<le> n \<and> n \<le> int (sl_cap b) then Inr (b\<lparr>sl_len := nat n\<rparr>)
      else Inl SliceBoundsOutOfRange)"

text \<open>\<open>make([]byte, c)\<close>: a fresh, zero-filled allocation and the slice over all of it.\<close>

definition make_bytes :: "heap \<Rightarrow> nat \<Rightarrow> heap \<times> slice" where
  "make_bytes h c =
     (h @ [replicate c 0], \<lparr>sl_alloc = length h, sl_off = 0, sl_len = c, sl_cap = c\<rparr>)"

text \<open>\<open>b[j] = v\<close> and the bytes a slice shows.\<close>

definition store_byte :: "slice \<Rightarrow> byte \<Rightarrow> nat \<Rightarrow> heap \<Rightarrow> heap" where
  "store_byte b v j h = h[sl_alloc b := (h ! sl_alloc b)[sl_off b + j := v]]"

definition bytes_of :: "heap \<Rightarrow> slice \<Rightarrow> byte list" where
  "bytes_of h b = take (sl_len b) (drop (sl_off b) (h ! sl_alloc b))"

section \<open>The manager\<close>

definition smallestBlockSize :: int where
  "smallestBlockSize = 1024"

record Manager =
  mutex :: bool
  blocks :: "slice list list"
  used :: "ptr \<rightharpoonup> bool"

definition NewManager :: Manager where
  "NewManager = \<lparr>mutex = False, blocks = replicate 21 [], used = Map.empty\<rparr>"

text \<open>
  \<open>m.mutex.Lock()\<close> waits while the mutex is held: in a run of one caller it then never
  returns, which is the value \<open>None\<close>. The deferred \<open>Unlock\<close> runs on return and on
  panic alike.
\<close>

definition lock :: "Manager \<Rightarrow> Manager option" where
  "lock m = (if mutex m then None else Some (m\<lparr>mutex := True\<rparr>))"

definition unlock :: "Manager \<Rightarrow> Manager" where
  "unlock m = m\<lparr>mutex := False\<rparr>"

text \<open>Reading \<open>m.used[p]\<close>: a missing key reads as \<open>false\<close>.\<close>

definition used_at :: "(ptr \<rightharpoonup> bool) \<Rightarrow> ptr \<Rightarrow> bool" where
  "used_at u p = (case u p of None \<Rightarrow> False | Some v \<Rightarrow> v)"

subsection \<open>GetBlock\<close>

text \<open>
  The search for the size class: \<open>c := smallestBlockSize; s := 0; for c < n { c *= 2; s++ }\<close>.
  Nothing bounds the loop, so it is a partial function: \<open>None\<close> when it runs forever.
\<close>

partial_function (option) find_class :: "int \<Rightarrow> int \<Rightarrow> int \<Rightarrow> (int \<times> int) option" where
  "find_class c s n =
     (if c < n then find_class (wrap64 (c * 2)) (wrap64 (s + 1)) n else Some (c, s))"

declare find_class.simps [code]

text \<open>
  The scan \<open>for i := range m.blocks[s]\<close> for the first block whose first byte is not
  marked used: the index found, \<open>None\<close> when every block is in use.
\<close>

fun scan_free :: "(ptr \<rightharpoonup> bool) \<Rightarrow> slice list \<Rightarrow> nat \<Rightarrow> error + nat option" where
  "scan_free u [] i = Inr None"
| "scan_free u (b # bs) i =
     (case addr0 b of
        Inl e \<Rightarrow> Inl e
      | Inr p \<Rightarrow> if \<not> used_at u p then Inr (Some i) else scan_free u bs (Suc i))"

text \<open>\<open>for j := range b { b[j] = 0 }\<close>\<close>

definition zero_block :: "slice \<Rightarrow> heap \<Rightarrow> heap" where
  "zero_block b h = fold (store_byte b 0) [0..<sl_len b] h"

definition take_block ::
  "int \<Rightarrow> int \<Rightarrow> int \<Rightarrow> Manager \<Rightarrow> heap \<Rightarrow> (error + slice) \<times> Manager \<times> heap" where
  "take_block c s n m h =
     (if s < 0 \<or> int (length (blocks m)) \<le> s then (Inl IndexOutOfRange, m, h)
      else
        (case scan_free (used m) (blocks m ! nat s) 0 of
           Inl e \<Rightarrow> (Inl e, m, h)
         | Inr (Some i) \<Rightarrow>
             (let b = blocks m ! nat s ! i
              in (Inr b,
                  m\<lparr>used := (used m)((sl_alloc b, sl_off b) \<mapsto> True)\<rparr>,
                  zero_block b h))
         | Inr None \<Rightarrow>
             (if c < 0 then (Inl MakeLenOutOfRange, m, h)
              else
                (let (h', new_block) = make_bytes h (nat c);
                     m1 = m\<lparr>blocks := (blocks m)[nat s := blocks m ! nat s @ [new_block]]\<rparr>
                 in (case addr0 new_block of
                       Inl e \<Rightarrow> (Inl e, m1, h')
                     | Inr p \<Rightarrow>
                         (let m2 = m1\<lparr>used := (used m1)(p \<mapsto> True)\<rparr>
                          in (case reslice0 new_block n of
                                Inl e \<Rightarrow> (Inl e, m2, h')
                              | Inr v \<Rightarrow> (Inr v, m2, h'))))))))"

definition GetBlock ::
  "int \<Rightarrow> Manager \<Rightarrow> heap \<Rightarrow> ((error + slice) \<times> Manager \<times> heap) option" where
  "GetBlock n m h =
     (case lock m of
        None \<Rightarrow> None
      | Some ml \<Rightarrow>
          (case find_class smallestBlockSize 0 n of
             None \<Rightarrow> None
           | Some (c, s) \<Rightarrow>
               (case take_block c s n ml h of (r, m', h') \<Rightarrow> Some (r, unlock m', h'))))"

subsection \<open>Concurrent callers of GetBlock\<close>

text \<open>
  For callers that run side by side the body of \<open>GetBlock\<close> is cut where another
  caller could come in between if the mutex did not keep it out: \<open>choose_block\<close> is the
  lookup \<open>m.blocks[s]\<close> and the scan, which only read the manager and settle on a free
  block or on making one; \<open>hand_out\<close> is the rest, which marks the block used, zeroes or
  makes it, and returns the view.
\<close>

datatype pick = Reuse nat nat | Fresh int nat

definition choose_block :: "int \<Rightarrow> int \<Rightarrow> Manager \<Rightarrow> error + pick" where
  "choose_block c s m =
     (if s < 0 \<or> int (length (blocks m)) \<le> s then Inl IndexOutOfRange
      else
        (case scan_free (used m) (blocks m ! nat s) 0 of
           Inl e \<Rightarrow> Inl e
         | Inr (Some i) \<Rightarrow> Inr (Reuse (nat s) i)
         | Inr None \<Rightarrow> Inr (Fresh c (nat s))))"

fun hand_out :: "int \<Rightarrow> pick \<Rightarrow> Manager \<Rightarrow> heap \<Rightarrow> (error + slice) \<times> Manager \<times> heap" where
  "hand_out n (Reuse j i) m h =
     (let b = blocks m ! j ! i
      in (Inr b, m\<lparr>used := (used m)((sl_alloc b, sl_off b) \<mapsto> True)\<rparr>, zero_block b h))"
| "hand_out n (Fresh c j) m h =
     (if c < 0 then (Inl MakeLenOutOfRange, m, h)
      else
        (let (h', new_block) = make_bytes h (nat c);
             m1 = m\<lparr>blocks := (blocks m)[j := blocks m ! j @ [new_block]]\<rparr>
         in (case addr0 new_block of
               Inl e \<Rightarrow> (Inl e, m1, h')
             | Inr p \<Rightarrow>
                 (let m2 = m1\<lparr>used := (used m1)(p \<mapsto> True)\<rparr>
                  in (case reslice0 new_block n of
                        Inl e \<Rightarrow> (Inl e, m2, h')
                      | Inr v \<Rightarrow> (Inr v, m2, h'))))))"

text \<open>
  A caller of \<open>GetBlock(n)\<close> is before \<open>m.mutex.Lock()\<close>, or holds the mutex and is before
  the class search, or has settled on a block, or has returned (the deferred \<open>Unlock\<close>
  done). A configuration is the manager, the heap and the callers.
\<close>

datatype pc =
    Calling int
  | Locked int
  | Picked int "error + pick"
  | Returned "error + slice"

record config =
  c_mgr :: Manager
  c_heap :: heap
  c_pcs :: "pc list"

text \<open>
  One step of caller \<open>t\<close>. A caller that waits for the mutex, one whose class search
  does not end, and one that has returned leave the configuration as it is.
\<close>

definition thread_step :: "nat \<Rightarrow> config \<Rightarrow> config" where
  "thread_step t C =
     (if length (c_pcs C) \<le> t then C
      else
        (case c_pcs C ! t of
           Calling n \<Rightarrow>
             (case lock (c_mgr C) of
                None \<Rightarrow> C
              | Some ml \<Rightarrow> C\<lparr>c_mgr := ml, c_pcs := (c_pcs C)[t := Locked n]\<rparr>)
         | Locked n \<Rightarrow>
             (case find_class smallestBlockSize 0 n of
                None \<Rightarrow> C
              | Some (c, s) \<Rightarrow>
                  C\<lparr>c_pcs := (c_pcs C)[t := Picked n (choose_block c s (c_mgr C))]\<rparr>)
         | Picked n (Inl e) \<Rightarrow>
             C\<lparr>c_mgr := unlock (c_mgr C), c_pcs := (c_pcs C)[t := Returned (Inl e)]\<rparr>
         | Picked n (Inr p) \<Rightarrow>
             (case hand_out n p (c_mgr C) (c_heap C) of
                (r, m', h') \<Rightarrow>
                  \<lparr>c_mgr = unlock m', c_heap = h', c_pcs = (c_pcs C)[t := Returned r]\<rparr>)
         | Returned r \<Rightarrow> C))"

text \<open>A schedule names the caller that takes each step.\<close>

fun interleave :: "nat list \<Rightarrow> config \<Rightarrow> config" where
  "interleave [] C = C"
| "interleave (t # ts) C = interleave ts (thread_step t C)"

subsection \<open>FreeBlock\<close>

definition FreeBlock ::
  "slice \<Rightarrow> Manager \<Rightarrow> heap \<Rightarrow> ((error + unit) \<times> Manager \<times> heap) option" where
  "FreeBlock b m h =
     (case lock m of
        None \<Rightarrow> None
      | Some ml \<Rightarrow>
          (case addr0 b of
             Inl e \<Rightarrow> Some (Inl e, unlock ml, h)
           | Inr p \<Rightarrow>
               (case used ml p of
                  None \<Rightarrow> Some (Inl (Panic ''Tried to free an unused block''), unlock ml, h)
                | Some _ \<Rightarrow> Some (Inr (), unlock (ml\<lparr>used := (used ml)(p := None)\<rparr>), h))))"

subsection \<open>TotalAllocations\<close>

text \<open>\<open>fmt.Sprintf("%d", x)\<close>: the decimal digits, with a minus sign below zero.\<close>

fun digits :: "nat \<Rightarrow> string" where
  "digits k =
     (if k < 10 then [''0123456789'' ! k]
      else digits (k div 10) @ [''0123456789'' ! (k mod 10)])"

declare digits.simps [simp del]

definition show_int :: "int \<Rightarrow> string" where
  "show_int x = (if x < 0 then CHR ''-'' # digits (nat (- x)) else digits (nat x))"

definition newline :: string where
  "newline = [CHR 0x0A]"

text \<open>The inner loop: how many blocks of one class are marked used.\<close>

fun count_used :: "(ptr \<rightharpoonup> bool) \<Rightarrow> slice list \<Rightarrow> int \<Rightarrow> error + int" where
  "count_used u [] k = Inr k"
| "count_used u (b # bs) k =
     (case addr0 b of
        Inl e \<Rightarrow> Inl e
      | Inr p \<Rightarrow> count_used u bs (if used_at u p then wrap64 (k + 1) else k))"

text \<open>
  The outer loop \<open>for s := range m.blocks\<close>, carrying \<open>c\<close>, \<open>ret\<close>, \<open>total_used\<close> and
  \<open>total_allocated\<close>.
\<close>

fun report_loop ::
  "(ptr \<rightharpoonup> bool) \<Rightarrow> slice list list \<Rightarrow> int \<Rightarrow> string \<Rightarrow> int \<Rightarrow> int \<Rightarrow> error + string \<times> int \<times> int" where
  "report_loop u [] c ret total_used total_allocated = Inr (ret, total_used, total_allocated)"
| "report_loop u (bs # bss) c ret total_used total_allocated =
     (case count_used u bs 0 of
        Inl e \<Rightarrow> Inl e
      | Inr k \<Rightarrow>
          report_loop u bss (wrap64 (c * 2))
            (if 0 < k
             then ret @ show_int c @ '' bytes: '' @ show_int k @ ''/'' @ show_int (int (length bs))
                    @ '' blocks in use.'' @ newline
             else ret)
            (wrap64 (total_used + wrap64 (k * c)))
            (wrap64 (total_allocated + wrap64 (int (length bs) * c))))"

text \<open>The method takes no lock: its body starts at \<open>c := smallestBlockSize\<close>.\<close>

definition TotalAllocations ::
  "Manager \<Rightarrow> heap \<Rightarrow> ((error + string) \<times> Manager \<times> heap) option" where
  "TotalAllocations m h =
     (case report_loop (used m) (blocks m) smallestBlockSize [] 0 0 of
        Inl e \<Rightarrow> Some (Inl e, m, h)
      | Inr (ret, total_used, total_allocated) \<Rightarrow>
          Some (Inr (ret @ ''Total memory used/allocated: '' @ show_int total_used @ ''/''
                      @ show_int total_allocated @ newline), m, h))"

section \<open>Specification predicates\<close>

text \<open>
  What the class search has established when it stops at \<open>r = (c, s)\<close>, having started
  at class \<open>k\<close>: \<open>c\<close> is the size of class \<open>s\<close>, it holds \<open>n\<close>, and no class from
  \<open>k\<close> up to \<open>s\<close> does.
\<close>

definition class_found :: "nat \<Rightarrow> int \<Rightarrow> int \<times> int \<Rightarrow> bool" where
  "class_found k n r =
     (\<exists>j. k \<le> j \<and> j \<le> 52 \<and> r = (1024 * 2 ^ j, int j) \<and> n \<le> 1024 * 2 ^ j
          \<and> (\<forall>t. k \<le> t \<and> t < j \<longrightarrow> 1024 * 2 ^ t < n))"

text \<open>
  The loop invariant of the class search: before \<open>c\<close> overflows it is the size of class
  \<open>s\<close>; after the overflow \<open>c\<close> is \<open>-2^63\<close> and then \<open>0\<close> for ever, and the loop cannot
  stop for a positive \<open>n\<close>.
\<close>

definition loop_post :: "int \<Rightarrow> int \<Rightarrow> int \<Rightarrow> int \<times> int \<Rightarrow> bool" where
  "loop_post c0 s0 n r =
     ((\<forall>k\<le>52. c0 = 1024 * 2 ^ k \<and> s0 = int k \<longrightarrow> class_found k n r)
      \<and> \<not> (c0 = 0 \<and> 0 < n) \<and> \<not> (c0 = - (2 ^ 63) \<and> 0 < n))"

text \<open>
  A block is identified by the address of its first byte, the key of \<open>m.used\<close>.
\<close>

definition block_key :: "slice \<Rightarrow> ptr" where
  "block_key b = (sl_alloc b, sl_off b)"

definition class_size :: "nat \<Rightarrow> nat" where
  "class_size s = 1024 * 2 ^ s"

text \<open>
  The representation invariant of a manager in a heap. The class table has its 21
  entries; a block of class \<open>s\<close> is the slice over the whole of a live allocation of
  \<open>class_size s\<close> bytes; every key of \<open>m.used\<close> is the first byte of a block of the
  table and is mapped to \<open>true\<close>. The contents of the heap are not constrained: callers
  write into the blocks they hold.
\<close>

definition block_ok :: "heap \<Rightarrow> nat \<Rightarrow> slice \<Rightarrow> bool" where
  "block_ok h s b =
     (sl_off b = 0 \<and> sl_len b = class_size s \<and> sl_cap b = class_size s
      \<and> sl_alloc b < length h \<and> length (h ! sl_alloc b) = class_size s)"

definition wf :: "Manager \<Rightarrow> heap \<Rightarrow> bool" where
  "wf m h =
     (length (blocks m) = 21
      \<and> (\<forall>s<21. \<forall>b\<in>set (blocks m ! s). block_ok h s b)
      \<and> (\<forall>p\<in>dom (used m). used m p = Some True
            \<and> (\<exists>s<21. \<exists>b\<in>set (blocks m ! s). p = block_key b)))"

text \<open>The block that \<open>GetBlock\<close> makes for class \<open>j\<close> in heap \<open>h\<close>.\<close>

definition fresh_block :: "heap \<Rightarrow> nat \<Rightarrow> slice" where
  "fresh_block h j = \<lparr>sl_alloc = length h, sl_off = 0, sl_len = class_size j, sl_cap = class_size j\<rparr>"

text \<open>
  The invariant of a configuration of concurrent callers. A caller is inside the critical
  section when it is \<open>Locked\<close> or \<open>Picked\<close>; the mutex is held exactly when some caller
  is inside, and at most one is. The block a caller has settled on is still free, or the
  class it will extend is in the table. The blocks of the views returned are checked out
  and differ from one another.
\<close>

definition in_cs :: "pc \<Rightarrow> bool" where
  "in_cs p = (case p of Locked n \<Rightarrow> True | Picked n q \<Rightarrow> True | _ \<Rightarrow> False)"

definition pick_ok :: "Manager \<Rightarrow> pick \<Rightarrow> bool" where
  "pick_ok m p =
     (case p of
        Reuse j i \<Rightarrow>
          j < 21 \<and> i < length (blocks m ! j)
          \<and> \<not> used_at (used m) (block_key (blocks m ! j ! i))
      | Fresh c j \<Rightarrow> j < 21 \<and> c = int (class_size j))"

definition cs_ok :: "bool \<Rightarrow> pc list \<Rightarrow> bool" where
  "cs_ok held ps =
     ((held \<longleftrightarrow> (\<exists>t<length ps. in_cs (ps ! t)))
      \<and> (\<forall>t u. t < length ps \<and> u < length ps \<and> in_cs (ps ! t) \<and> in_cs (ps ! u) \<longrightarrow> t = u))"

definition picks_ok :: "Manager \<Rightarrow> pc list \<Rightarrow> bool" where
  "picks_ok m ps = (\<forall>t n p. t < length ps \<and> ps ! t = Picked n (Inr p) \<longrightarrow> pick_ok m p)"

definition views_ok :: "Manager \<Rightarrow> pc list \<Rightarrow> bool" where
  "views_ok m ps =
     ((\<forall>t v. t < length ps \<and> ps ! t = Returned (Inr v) \<longrightarrow> block_key v \<in> dom (used m))
      \<and> (\<forall>t u v w. t < length ps \<and> u < length ps \<and> t \<noteq> u
            \<and> ps ! t = Returned (Inr v) \<and> ps ! u = Returned (Inr w)
            \<longrightarrow> block_key v \<noteq> block_key w))"

definition inv :: "config \<Rightarrow> bool" where
  "inv C =
     (wf (c_mgr C) (c_heap C) \<and> cs_ok (mutex (c_mgr C)) (c_pcs C)
      \<and> picks_ok (c_mgr C) (c_pcs C) \<and> views_ok (c_mgr C) (c_pcs C))"

text \<open>
  The bytes a manager has allocated: over the classes, the class size times the number of
  blocks of the class. \<open>class_bytes k\<close> sums a tail of the table that starts at class \<open>k\<close>.
\<close>

fun class_bytes :: "nat \<Rightarrow> slice list list \<Rightarrow> nat" where
  "class_bytes k [] = 0"
| "class_bytes k (bs # bss) = class_size k * length bs + class_bytes (Suc k) bss"

definition total_bytes :: "Manager \<Rightarrow> nat" where
  "total_bytes m = class_bytes 0 (blocks m)"

text \<open>
  A caller's run: a sequence of calls on one manager, each started when the one before
  has returned or panicked (a panic is recovered and the run goes on in the state the
  panic left). The run is \<open>None\<close> when a call never returns.
\<close>

datatype call = Get int | Free slice | Report

fun exec :: "call \<Rightarrow> Manager \<times> heap \<Rightarrow> (Manager \<times> heap) option" where
  "exec (Get n) (m, h) = map_option snd (GetBlock n m h)"
| "exec (Free b) (m, h) = map_option snd (FreeBlock b m h)"
| "exec Report (m, h) = map_option snd (TotalAllocations m h)"

fun run :: "call list \<Rightarrow> Manager \<times> heap \<Rightarrow> (Manager \<times> heap) option" where
  "run [] st = Some st"
| "run (c # cs) st = (case exec c st of None \<Rightarrow> None | Some st' \<Rightarrow> run cs st')"

section \<open>A scenario\<close>

text \<open>
  The states of a short run on a new manager: \<open>GetBlock(10)\<close> creates \<open>block0\<close> in class 0
  and leaves the manager \<open>held0\<close>; the caller fills the block with \<open>0xFF\<close>, the heap
  \<open>stale\<close>; \<open>FreeBlock\<close> of the view leaves the manager \<open>freed0\<close>.
\<close>

definition block0 :: slice where
  "block0 = \<lparr>sl_alloc = 0, sl_off = 0, sl_len = 1024, sl_cap = 1024\<rparr>"

definition held0 :: Manager where
  "held0 = \<lparr>mutex = False, blocks = (replicate 21 [])[0 := [block0]], used = [(0, 0) \<mapsto> True]\<rparr>"

definition freed0 :: Manager where
  "freed0 = \<lparr>mutex = False, blocks = (replicate 21 [])[0 := [block0]], used = Map.empty\<rparr>"

definition stale :: heap where
  "stale = [replicate 1024 255]"

section \<open>The class search\<close>

lemma wrap64_id: "is_int64 x \<Longrightarrow> wrap64 x = x"
  by (simp add: wrap64_def is_int64_def)

lemma class_size_bound: "k \<le> 52 \<Longrightarrow> (1024::int) * 2 ^ k \<le> 2 ^ 62"
proof -
  assume "k \<le> 52"
  then have "(2::int) ^ k \<le> 2 ^ 52" by (intro power_increasing) auto
  then show ?thesis by simp
qed

lemma is_int64_double: "0 \<le> x \<Longrightarrow> 1024 * (2 * x) \<le> 2 ^ 62 \<Longrightarrow> is_int64 (1024 * x * 2)"
  by (simp add: is_int64_def)

lemma wrap64_double_class: "k < 52 \<Longrightarrow> wrap64 (1024 * 2 ^ k * 2) = 1024 * 2 ^ Suc k"
proof -
  assume "k < 52"
  then have "(1024::int) * 2 ^ Suc k \<le> 2 ^ 62" by (intro class_size_bound) simp
  then have "is_int64 (1024 * 2 ^ k * 2)" by (intro is_int64_double) simp_all
  then show ?thesis by (simp add: wrap64_id)
qed

lemma wrap64_double_top: "wrap64 (1024 * 2 ^ 52 * 2) = - (2 ^ 63)"
  by (simp add: wrap64_def)

lemma wrap64_succ: "k \<le> 52 \<Longrightarrow> wrap64 (int k + 1) = int (Suc k)"
  by (simp add: wrap64_def)

lemma find_class_partial:
  assumes "find_class c0 s0 n = Some r"
  shows "loop_post c0 s0 n r"
proof (rule find_class.raw_induct[where P = loop_post, OF _ assms])
  fix f :: "int \<Rightarrow> int \<Rightarrow> int \<Rightarrow> (int \<times> int) option" and c s n :: int and r :: "int \<times> int"
  assume IH: "\<And>c s n r. f c s n = Some r \<Longrightarrow> loop_post c s n r"
    and eq: "(if c < n then f (wrap64 (c * 2)) (wrap64 (s + 1)) n else Some (c, s)) = Some r"
  have stuck0: "\<not> (c = 0 \<and> 0 < n)"
  proof
    assume a: "c = 0 \<and> 0 < n"
    with eq have "f 0 (wrap64 (s + 1)) n = Some r" by (simp add: wrap64_def)
    from IH[OF this] a show False by (simp add: loop_post_def)
  qed
  have stuckm: "\<not> (c = - (2 ^ 63) \<and> 0 < n)"
  proof
    assume a: "c = - (2 ^ 63) \<and> 0 < n"
    with eq have "f 0 (wrap64 (s + 1)) n = Some r" by (simp add: wrap64_def)
    from IH[OF this] a show False by (simp add: loop_post_def)
  qed
  have good: "class_found k n r" if k: "k \<le> 52" "c = 1024 * 2 ^ k" "s = int k" for k
  proof (cases "c < n")
    case False
    with eq k show ?thesis by (auto simp: class_found_def intro!: exI[of _ k])
  next
    case True
    show ?thesis
    proof (cases "k = 52")
      case True
      with \<open>c < n\<close> k have "0 < n" by simp
      from \<open>c < n\<close> eq k True have "f (- (2 ^ 63)) (wrap64 (s + 1)) n = Some r"
        using wrap64_double_top by simp
      from IH[OF this] \<open>0 < n\<close> show ?thesis by (simp add: loop_post_def)
    next
      case False
      with k have lt: "k < 52" by simp
      from \<open>c < n\<close> eq k have "f (1024 * 2 ^ Suc k) (int (Suc k)) n = Some r"
        using wrap64_double_class[OF lt] wrap64_succ[of k] by simp
      from IH[OF this] lt have "class_found (Suc k) n r" by (simp add: loop_post_def)
      then obtain j where j: "Suc k \<le> j" "j \<le> 52" "r = (1024 * 2 ^ j, int j)" "n \<le> 1024 * 2 ^ j"
        "\<forall>t. Suc k \<le> t \<and> t < j \<longrightarrow> 1024 * 2 ^ t < n"
        unfolding class_found_def by blast
      have "\<forall>t. k \<le> t \<and> t < j \<longrightarrow> 1024 * 2 ^ t < n"
      proof (intro allI impI)
        fix t assume t: "k \<le> t \<and> t < j"
        show "1024 * 2 ^ t < n"
        proof (cases "t = k")
          case True with \<open>c < n\<close> k show ?thesis by simp
        next
          case False with t j(5) show ?thesis by simp
        qed
      qed
      with j show ?thesis unfolding class_found_def by (intro exI[of _ j]) simp
    qed
  qed
  from stuck0 stuckm good show "loop_post c s n r" unfolding loop_post_def by blast
qed

lemma find_class_total:
  assumes "n \<le> 2 ^ 62" "k \<le> 52"
  shows "\<exists>r. find_class (1024 * 2 ^ k) (int k) n = Some r"
  using assms
proof (induction "52 - k" arbitrary: k)
  case 0
  then have "k = 52" by simp
  with 0 have "\<not> (1024 * 2 ^ k < n)" by simp
  then show ?case by (subst find_class.simps) simp
next
  case (Suc d)
  then have lt: "k < 52" by simp
  show ?case
  proof (cases "1024 * 2 ^ k < n")
    case False
    then show ?thesis by (subst find_class.simps) simp
  next
    case True
    from Suc have "\<exists>r. find_class (1024 * 2 ^ Suc k) (int (Suc k)) n = Some r"
      by (intro Suc(1)) auto
    with True show ?thesis
      using wrap64_double_class[OF lt] wrap64_succ[of k] lt
      by (subst find_class.simps) simp
  qed
qed

lemma find_class_diverges:
  assumes "2 ^ 62 < n"
  shows "find_class 1024 0 n = None"
proof (cases "find_class 1024 0 n")
  case None then show ?thesis .
next
  case (Some r)
  from find_class_partial[OF Some] have "class_found 0 n r" by (simp add: loop_post_def)
  then obtain j where "j \<le> 52" "n \<le> 1024 * 2 ^ j" unfolding class_found_def by blast
  with class_size_bound[of j] assms show ?thesis by simp
qed

lemma find_class_result:
  assumes "find_class smallestBlockSize 0 n = Some (c, s)"
  shows "\<exists>j\<le>52. c = 1024 * 2 ^ j \<and> s = int j \<and> n \<le> 1024 * 2 ^ j \<and> (\<forall>t<j. 1024 * 2 ^ t < n)"
proof -
  from find_class_partial[OF assms] have "class_found 0 n (c, s)"
    by (simp add: loop_post_def smallestBlockSize_def)
  then show ?thesis unfolding class_found_def by auto
qed

lemma find_class_returns:
  assumes "n \<le> 2 ^ 62"
  shows "\<exists>c s. find_class smallestBlockSize 0 n = Some (c, s)"
  using find_class_total[OF assms, of 0] by (simp add: smallestBlockSize_def)

lemma find_class_beyond:
  assumes "find_class smallestBlockSize 0 n = Some (c, s)" "2 ^ 30 < n"
  shows "21 \<le> s"
proof -
  from find_class_result[OF assms(1)] obtain j where
    j: "s = int j" "n \<le> 1024 * 2 ^ j" by blast
  have "\<not> j \<le> 20"
  proof
    assume "j \<le> 20"
    then have "(2::int) ^ j \<le> 2 ^ 20" by (intro power_increasing) auto
    with j(2) assms(2) show False by simp
  qed
  with j(1) show ?thesis by simp
qed

lemma unlock_lock: "\<not> mutex m \<Longrightarrow> unlock (m\<lparr>mutex := True\<rparr>) = m"
  by (simp add: unlock_def)

lemma nat_class_size: "nat (1024 * 2 ^ j) = class_size j"
  by (simp add: class_size_def nat_mult_distrib nat_power_eq)

lemma int_class_size: "int (class_size j) = 1024 * 2 ^ j"
  by (simp add: class_size_def)

lemma class_size_pos: "0 < class_size j"
  by (simp add: class_size_def)

section \<open>The scan for a free block\<close>

lemma scan_free_found:
  "scan_free u bs k = Inr (Some i) \<Longrightarrow>
     k \<le> i \<and> i - k < length bs \<and> sl_len (bs ! (i - k)) \<noteq> 0 \<and> \<not> used_at u (block_key (bs ! (i - k)))"
proof (induction bs arbitrary: k)
  case Nil
  then show ?case by simp
next
  case (Cons b bs)
  show ?case
  proof (cases "sl_len b = 0")
    case True
    with Cons.prems show ?thesis by (simp add: addr0_def)
  next
    case False
    note len = this
    show ?thesis
    proof (cases "used_at u (sl_alloc b, sl_off b)")
      case False
      with len Cons.prems show ?thesis by (simp add: addr0_def block_key_def)
    next
      case True
      with len Cons.prems have "scan_free u bs (Suc k) = Inr (Some i)" by (simp add: addr0_def)
      from Cons.IH[OF this] have ih: "Suc k \<le> i" "i - Suc k < length bs" "sl_len (bs ! (i - Suc k)) \<noteq> 0"
        "\<not> used_at u (block_key (bs ! (i - Suc k)))" by simp_all
      from ih(1) have "i - k = Suc (i - Suc k)" by simp
      with ih show ?thesis by simp
    qed
  qed
qed

lemma scan_free_none:
  "scan_free u bs k = Inr None \<Longrightarrow> \<forall>b\<in>set bs. sl_len b \<noteq> 0 \<and> used_at u (block_key b)"
proof (induction bs arbitrary: k)
  case Nil
  then show ?case by simp
next
  case (Cons b bs)
  then show ?case
    by (auto simp: addr0_def block_key_def split: if_splits)
qed

lemma scan_free_no_panic:
  "\<forall>b\<in>set bs. sl_len b \<noteq> 0 \<Longrightarrow> \<exists>r. scan_free u bs k = Inr r"
  by (induction bs arbitrary: k) (auto simp: addr0_def)

lemma scan_free_finds:
  "\<forall>b\<in>set bs. sl_len b \<noteq> 0 \<Longrightarrow> b \<in> set bs \<Longrightarrow> \<not> used_at u (block_key b) \<Longrightarrow>
     \<exists>i. scan_free u bs k = Inr (Some i)"
proof -
  assume a: "\<forall>b\<in>set bs. sl_len b \<noteq> 0" "b \<in> set bs" "\<not> used_at u (block_key b)"
  from scan_free_no_panic[OF a(1)] obtain r where r: "scan_free u bs k = Inr r" by blast
  show ?thesis
  proof (cases r)
    case None
    with r scan_free_none[of u bs k] a show ?thesis by blast
  next
    case (Some i)
    with r show ?thesis by blast
  qed
qed

section \<open>Zeroing a block\<close>

lemma length_store_byte: "length (store_byte b v j h) = length h"
  by (simp add: store_byte_def)

lemma lengths_store_byte: "map length (store_byte b v j h) = map length h"
proof (rule nth_equalityI)
  show "length (map length (store_byte b v j h)) = length (map length h)"
    by (simp add: store_byte_def)
next
  fix i assume "i < length (map length (store_byte b v j h))"
  then have i: "i < length h" by (simp add: store_byte_def)
  then show "map length (store_byte b v j h) ! i = map length h ! i"
    by (cases "i = sl_alloc b") (simp_all add: store_byte_def)
qed

lemma nth_store_byte:
  "sl_alloc b < length h \<Longrightarrow> i < length (h ! sl_alloc b) \<Longrightarrow>
     store_byte b v j h ! sl_alloc b ! i = (if i = sl_off b + j then v else h ! sl_alloc b ! i)"
  by (simp add: store_byte_def nth_list_update)

lemma fold_store_lengths: "map length (fold (store_byte b v) js h) = map length h"
  by (induction js arbitrary: h) (simp_all add: lengths_store_byte)

lemma lengths_zero_block: "map length (zero_block b h) = map length h"
  by (simp add: zero_block_def fold_store_lengths)

lemma length_zero_block: "length (zero_block b h) = length h"
  using lengths_zero_block[of b h] by (metis length_map)

lemma nth_length_zero_block:
  "a < length h \<Longrightarrow> length (zero_block b h ! a) = length (h ! a)"
  using lengths_zero_block[of b h] by (metis length_zero_block nth_map)

lemma fold_store_zero:
  assumes "sl_alloc b < length h" "sl_off b + k \<le> length (h ! sl_alloc b)" "j < k"
  shows "fold (store_byte b 0) [0..<k] h ! sl_alloc b ! (sl_off b + j) = 0"
  using assms
proof (induction k)
  case 0
  then show ?case by simp
next
  case (Suc k)
  let ?g = "fold (store_byte b 0) [0..<k] h"
  have len: "length ?g = length h"
    using fold_store_lengths[of b 0 "[0..<k]" h] by (metis length_map)
  have len2: "length (?g ! sl_alloc b) = length (h ! sl_alloc b)"
    using fold_store_lengths[of b 0 "[0..<k]" h] Suc.prems(1) len by (metis nth_map)
  show ?case
  proof (cases "j = k")
    case True
    with Suc.prems len len2 show ?thesis by (simp add: nth_store_byte)
  next
    case False
    with Suc.prems have "j < k" by simp
    with Suc have "?g ! sl_alloc b ! (sl_off b + j) = 0" by simp
    with Suc.prems len len2 False show ?thesis by (simp add: nth_store_byte)
  qed
qed

lemma bytes_of_zero_block:
  assumes "sl_alloc b < length h" "sl_off b + sl_len b \<le> length (h ! sl_alloc b)"
  shows "bytes_of (zero_block b h) b = replicate (sl_len b) 0"
proof (rule nth_equalityI)
  show "length (bytes_of (zero_block b h) b) = length (replicate (sl_len b) 0)"
    using assms by (simp add: bytes_of_def nth_length_zero_block)
next
  fix i assume "i < length (bytes_of (zero_block b h) b)"
  then have i: "i < sl_len b" by (simp add: bytes_of_def)
  with assms have "bytes_of (zero_block b h) b ! i = zero_block b h ! sl_alloc b ! (sl_off b + i)"
    by (simp add: bytes_of_def nth_length_zero_block)
  also have "\<dots> = 0" unfolding zero_block_def using assms i by (intro fold_store_zero)
  finally show "bytes_of (zero_block b h) b ! i = replicate (sl_len b) 0 ! i" using i by simp
qed

section \<open>The two ways \<open>GetBlock\<close> returns a view\<close>

lemma unlock_lock_used:
  "\<not> mutex m \<Longrightarrow> unlock (m\<lparr>mutex := True, used := u\<rparr>) = m\<lparr>used := u\<rparr>"
  by (simp add: unlock_def)

lemma unlock_lock_grown:
  "\<not> mutex m \<Longrightarrow> unlock (m\<lparr>mutex := True, blocks := bs, used := u\<rparr>) = m\<lparr>blocks := bs, used := u\<rparr>"
  by (simp add: unlock_def)

lemma reuse_path:
  assumes "\<not> mutex m" "find_class smallestBlockSize 0 n = Some (c, int j)" "j < length (blocks m)"
    "scan_free (used m) (blocks m ! j) 0 = Inr (Some i)"
  shows "GetBlock n m h =
           Some (Inr (blocks m ! j ! i),
                 m\<lparr>used := (used m)(block_key (blocks m ! j ! i) \<mapsto> True)\<rparr>,
                 zero_block (blocks m ! j ! i) h)"
  using assms
  by (simp add: GetBlock_def lock_def take_block_def Let_def block_key_def unlock_lock_used)

lemma fresh_path:
  assumes "\<not> mutex m" "find_class smallestBlockSize 0 n = Some (1024 * 2 ^ j, int j)"
    "j < length (blocks m)" "scan_free (used m) (blocks m ! j) 0 = Inr None"
    "0 \<le> n" "n \<le> 1024 * 2 ^ j"
  shows "GetBlock n m h =
           Some (Inr (fresh_block h j\<lparr>sl_len := nat n\<rparr>),
                 m\<lparr>blocks := (blocks m)[j := blocks m ! j @ [fresh_block h j]],
                   used := (used m)(block_key (fresh_block h j) \<mapsto> True)\<rparr>,
                 h @ [replicate (class_size j) 0])"
  using assms
  by (simp add: GetBlock_def lock_def take_block_def Let_def block_key_def unlock_lock_grown
      make_bytes_def nat_class_size addr0_def reslice0_def fresh_block_def class_size_pos
      int_class_size)

lemma GetBlock_cases:
  assumes "GetBlock n m h = Some (Inr v, m', h')"
  obtains (reuse) j i where
      "find_class smallestBlockSize 0 n = Some (1024 * 2 ^ j, int j)" "j < length (blocks m)"
      "n \<le> 1024 * 2 ^ j" "\<forall>t<j. 1024 * 2 ^ t < n"
      "scan_free (used m) (blocks m ! j) 0 = Inr (Some i)"
      "v = blocks m ! j ! i"
      "m' = m\<lparr>used := (used m)(block_key v \<mapsto> True)\<rparr>"
      "h' = zero_block v h" "\<not> mutex m"
  | (fresh) j where
      "find_class smallestBlockSize 0 n = Some (1024 * 2 ^ j, int j)" "j < length (blocks m)"
      "n \<le> 1024 * 2 ^ j" "\<forall>t<j. 1024 * 2 ^ t < n"
      "scan_free (used m) (blocks m ! j) 0 = Inr None" "0 \<le> n"
      "v = fresh_block h j\<lparr>sl_len := nat n\<rparr>"
      "m' = m\<lparr>blocks := (blocks m)[j := blocks m ! j @ [fresh_block h j]],
                used := (used m)(block_key (fresh_block h j) \<mapsto> True)\<rparr>"
      "h' = h @ [replicate (class_size j) 0]" "\<not> mutex m"
proof -
  from assms have nm: "\<not> mutex m" by (auto simp: GetBlock_def lock_def split: if_splits)
  from assms nm obtain c s where cs: "find_class smallestBlockSize 0 n = Some (c, s)"
    by (auto simp: GetBlock_def lock_def split: option.splits)
  from find_class_result[OF cs] obtain j where
    j: "c = 1024 * 2 ^ j" "s = int j" "n \<le> 1024 * 2 ^ j" "\<forall>t<j. 1024 * 2 ^ t < n" by blast
  from assms nm cs obtain m'' where
    tb: "take_block c s n (m\<lparr>mutex := True\<rparr>) h = (Inr v, m'', h')" "m' = unlock m''"
    by (auto simp: GetBlock_def lock_def split: prod.splits)
  from tb(1) j(2) have jl: "j < length (blocks m)"
    by (auto simp: take_block_def split: if_splits)
  from tb(1) j(2) jl obtain r where r: "scan_free (used m) (blocks m ! j) 0 = Inr r"
    by (cases "scan_free (used m) (blocks m ! j) 0") (auto simp: take_block_def)
  show thesis
  proof (cases r)
    case (Some i)
    with r have sc: "scan_free (used m) (blocks m ! j) 0 = Inr (Some i)" by simp
    from reuse_path[OF nm cs[unfolded j(2)] jl sc, of h] assms
    have "v = blocks m ! j ! i" "m' = m\<lparr>used := (used m)(block_key v \<mapsto> True)\<rparr>"
      "h' = zero_block v h" by simp_all
    with reuse cs j jl sc nm show thesis by blast
  next
    case None
    with r have sc: "scan_free (used m) (blocks m ! j) 0 = Inr None" by simp
    have n0: "0 \<le> n"
    proof (rule ccontr)
      assume "\<not> 0 \<le> n"
      with tb(1) j jl sc show False
        by (simp add: take_block_def make_bytes_def addr0_def reslice0_def Let_def
            nat_class_size class_size_pos split: if_splits)
    qed
    from fresh_path[OF nm cs[unfolded j(1) j(2)] jl sc n0 j(3), of h] assms
    have "v = fresh_block h j\<lparr>sl_len := nat n\<rparr>"
      "m' = m\<lparr>blocks := (blocks m)[j := blocks m ! j @ [fresh_block h j]],
                used := (used m)(block_key (fresh_block h j) \<mapsto> True)\<rparr>"
      "h' = h @ [replicate (class_size j) 0]" by simp_all
    with fresh cs j jl sc nm n0 show thesis by blast
  qed
qed

section \<open>The invariant is kept\<close>

lemma wf_NewManager: "wf NewManager h"
  by (simp add: wf_def NewManager_def)

lemma block_ok_heap:
  assumes "block_ok h s b" "length h \<le> length h'" "\<forall>a<length h. length (h' ! a) = length (h ! a)"
  shows "block_ok h' s b"
  using assms by (auto simp: block_ok_def)

lemma wf_heap:
  assumes "wf m h" "length h \<le> length h'" "\<forall>a<length h. length (h' ! a) = length (h ! a)"
  shows "wf m h'"
  using assms unfolding wf_def by (blast intro: block_ok_heap)

lemma wf_block:
  "wf m h \<Longrightarrow> j < 21 \<Longrightarrow> b \<in> set (blocks m ! j) \<Longrightarrow> block_ok h j b"
  by (simp add: wf_def)

lemma wf_mark_used:
  assumes "wf m h" "j < 21" "b \<in> set (blocks m ! j)"
  shows "wf (m\<lparr>used := (used m)(block_key b \<mapsto> True)\<rparr>) h"
  using assms unfolding wf_def by auto

lemma wf_reuse:
  assumes "wf m h" "j < 21" "b \<in> set (blocks m ! j)"
  shows "wf (m\<lparr>used := (used m)(block_key b \<mapsto> True)\<rparr>) (zero_block b h)"
  by (rule wf_heap[OF wf_mark_used[OF assms]])
     (simp_all add: length_zero_block nth_length_zero_block)

lemma wf_fresh:
  assumes "wf m h" "j < 21"
  shows "wf (m\<lparr>blocks := (blocks m)[j := blocks m ! j @ [fresh_block h j]],
              used := (used m)(block_key (fresh_block h j) \<mapsto> True)\<rparr>)
            (h @ [replicate (class_size j) 0])"
proof -
  let ?h = "h @ [replicate (class_size j) 0]"
  let ?bs = "(blocks m)[j := blocks m ! j @ [fresh_block h j]]"
  from assms have len: "length (blocks m) = 21" by (simp add: wf_def)
  have new: "block_ok ?h j (fresh_block h j)"
    by (simp add: block_ok_def fresh_block_def)
  have old: "block_ok ?h s b" if "s < 21" "b \<in> set (blocks m ! s)" for s b
    by (rule block_ok_heap[OF wf_block[OF assms(1) that]]) (simp_all add: nth_append)
  have blocks: "\<forall>s<21. \<forall>b\<in>set (?bs ! s). block_ok ?h s b"
  proof (intro allI impI ballI)
    fix s b assume s: "s < 21" and b: "b \<in> set (?bs ! s)"
    show "block_ok ?h s b"
    proof (cases "s = j")
      case True
      with b len assms(2) have "b \<in> set (blocks m ! j) \<or> b = fresh_block h j" by auto
      with new old[OF assms(2)] True show ?thesis by blast
    next
      case False
      with b len have "b \<in> set (blocks m ! s)" by simp
      with old[OF s] show ?thesis by blast
    qed
  qed
  have keep: "b \<in> set (?bs ! s)" if "s < 21" "b \<in> set (blocks m ! s)" for s b
    using that len by (cases "s = j") auto
  have fresh_in: "fresh_block h j \<in> set (?bs ! j)"
    using assms(2) len by simp
  have keys: "\<forall>p\<in>dom ((used m)(block_key (fresh_block h j) \<mapsto> True)).
      ((used m)(block_key (fresh_block h j) \<mapsto> True)) p = Some True
      \<and> (\<exists>s<21. \<exists>b\<in>set (?bs ! s). p = block_key b)"
  proof
    fix p assume p: "p \<in> dom ((used m)(block_key (fresh_block h j) \<mapsto> True))"
    show "((used m)(block_key (fresh_block h j) \<mapsto> True)) p = Some True
      \<and> (\<exists>s<21. \<exists>b\<in>set (?bs ! s). p = block_key b)"
    proof (cases "p = block_key (fresh_block h j)")
      case True
      with fresh_in assms(2) show ?thesis by auto
    next
      case False
      with p have "p \<in> dom (used m)" by auto
      with assms(1) have "used m p = Some True" "\<exists>s<21. \<exists>b\<in>set (blocks m ! s). p = block_key b"
        unfolding wf_def by blast+
      with False keep show ?thesis by auto
    qed
  qed
  from len blocks keys show ?thesis by (simp add: wf_def)
qed

lemma scan_free_in_set:
  assumes "scan_free u bs 0 = Inr (Some i)"
  shows "bs ! i \<in> set bs" "\<not> used_at u (block_key (bs ! i))"
  using scan_free_found[OF assms] by simp_all

lemma wf_GetBlock:
  assumes "wf m h" "GetBlock n m h = Some (Inr v, m', h')"
  shows "wf m' h'"
  using assms(2)
proof (cases rule: GetBlock_cases)
  case (reuse j i)
  from assms(1) reuse(2) have j: "j < 21" by (simp add: wf_def)
  from scan_free_in_set(1)[OF reuse(5)] reuse(6) have "v \<in> set (blocks m ! j)" by simp
  from wf_reuse[OF assms(1) j this] reuse show ?thesis by simp
next
  case (fresh j)
  from assms(1) fresh(2) have j: "j < 21" by (simp add: wf_def)
  from wf_fresh[OF assms(1) j] fresh show ?thesis by simp
qed

lemma wf_FreeBlock:
  assumes "wf m h" "FreeBlock b m h = Some (r, m', h')"
  shows "wf m' h'"
proof -
  from assms(2) have nm: "\<not> mutex m" by (auto simp: FreeBlock_def lock_def split: if_splits)
  have drop: "wf (m\<lparr>used := (used m)(p := None)\<rparr>) h" for p
    using assms(1) unfolding wf_def by (auto split: if_splits)
  from assms(2) nm have "(m' = m \<or> (\<exists>p. m' = m\<lparr>used := (used m)(p := None)\<rparr>)) \<and> h' = h"
    by (auto simp: FreeBlock_def lock_def unlock_lock unlock_lock_used
        split: sum.splits option.splits)
  with assms(1) drop show ?thesis by auto
qed

lemma find_class_in_range:
  assumes "n \<le> 2 ^ 30"
  obtains j where "j < 21" "find_class smallestBlockSize 0 n = Some (1024 * 2 ^ j, int j)"
    "n \<le> 1024 * 2 ^ j" "\<forall>t<j. 1024 * 2 ^ t < n"
proof -
  from assms have "n \<le> 2 ^ 62" by simp
  from find_class_returns[OF this] obtain c s where
    cs: "find_class smallestBlockSize 0 n = Some (c, s)" by blast
  from find_class_result[OF cs] obtain j where
    j: "c = 1024 * 2 ^ j" "s = int j" "n \<le> 1024 * 2 ^ j" "\<forall>t<j. 1024 * 2 ^ t < n" by blast
  have "j < 21"
  proof (rule ccontr)
    assume "\<not> j < 21"
    then have "20 < j" by simp
    with j(4) have "1024 * 2 ^ 20 < n" by blast
    with assms show False by simp
  qed
  with cs j that show thesis by blast
qed

lemma wf_scan:
  assumes "wf m h" "j < 21"
  shows "\<exists>r. scan_free (used m) (blocks m ! j) 0 = Inr r"
proof (rule scan_free_no_panic)
  show "\<forall>b\<in>set (blocks m ! j). sl_len b \<noteq> 0"
    using wf_block[OF assms] by (auto simp: block_ok_def class_size_def)
qed

lemma GetBlock_in_range:
  assumes "wf m h" "\<not> mutex m" "0 \<le> n" "n \<le> 2 ^ 30"
  shows "\<exists>v m' h'. GetBlock n m h = Some (Inr v, m', h')"
proof -
  from find_class_in_range[OF assms(4)] obtain j where
    j: "j < 21" "find_class smallestBlockSize 0 n = Some (1024 * 2 ^ j, int j)"
    "n \<le> 1024 * 2 ^ j" by blast
  from assms(1) j(1) have jl: "j < length (blocks m)" by (simp add: wf_def)
  from wf_scan[OF assms(1) j(1)] obtain r where
    r: "scan_free (used m) (blocks m ! j) 0 = Inr r" by blast
  show ?thesis
  proof (cases r)
    case None
    with r fresh_path[OF assms(2) j(2) jl _ assms(3) j(3), of h] show ?thesis by simp
  next
    case (Some i)
    with r reuse_path[OF assms(2) j(2) jl, of i h] show ?thesis by simp
  qed
qed

section \<open>The scenario, evaluated\<close>

lemma find_class_10: "find_class smallestBlockSize 0 10 = Some (1024, 0)"
  by (simp add: find_class.simps smallestBlockSize_def)

lemma find_class_0: "find_class smallestBlockSize 0 0 = Some (1024, 0)"
  by (simp add: find_class.simps smallestBlockSize_def)

lemma scenario_get:
  "GetBlock 10 NewManager [] = Some (Inr (block0\<lparr>sl_len := 10\<rparr>), held0, [replicate 1024 0])"
  by (simp add: GetBlock_def lock_def unlock_def find_class_10 take_block_def NewManager_def
      make_bytes_def addr0_def reslice0_def held0_def block0_def)

lemma scenario_free:
  "FreeBlock (block0\<lparr>sl_len := 10\<rparr>) held0 h = Some (Inr (), freed0, h)"
  by (simp add: FreeBlock_def lock_def unlock_def addr0_def held0_def freed0_def block0_def)

lemma scenario_get_again:
  "GetBlock 10 freed0 h = Some (Inr block0, held0, zero_block block0 h)"
  by (simp add: GetBlock_def lock_def unlock_def find_class_10 take_block_def freed0_def
      addr0_def used_at_def held0_def block0_def Let_def)

lemma scenario_get_zero:
  "GetBlock 0 freed0 h = Some (Inr block0, held0, zero_block block0 h)"
  by (simp add: GetBlock_def lock_def unlock_def find_class_0 take_block_def freed0_def
      addr0_def used_at_def held0_def block0_def Let_def)

lemma scenario_free_whole:
  "FreeBlock block0 held0 h = Some (Inr (), freed0, h)"
  by (simp add: FreeBlock_def lock_def unlock_def addr0_def held0_def freed0_def block0_def)

lemma wf_freed0: "wf freed0 stale"
  by (simp add: wf_def freed0_def stale_def nth_list_update block_ok_def block0_def class_size_def)

lemma wf_held0: "wf held0 stale"
proof -
  have "block0 \<in> set (blocks freed0 ! 0)" by (simp add: freed0_def)
  from wf_mark_used[OF wf_freed0 _ this]
  have "wf (freed0\<lparr>used := (used freed0)(block_key block0 \<mapsto> True)\<rparr>) stale" by simp
  moreover have "freed0\<lparr>used := (used freed0)(block_key block0 \<mapsto> True)\<rparr> = held0"
    by (simp add: freed0_def held0_def block_key_def block0_def)
  ultimately show ?thesis by simp
qed

section \<open>Zero on reuse\<close>

text \<open>
  C2. When \<open>GetBlock\<close> hands out a block that existed before the call (the view's
  allocation is already in the heap, so the block was acquired and freed before), every
  byte of the returned view is zero in the heap the call leaves, whatever the heap held
  before: the invariant constrains only the sizes of the allocations, not their contents.
\<close>

theorem GetBlock_reuse_zeroed:
  assumes "wf m h" "GetBlock n m h = Some (Inr v, m', h')" "sl_alloc v < length h"
  shows "bytes_of h' v = replicate (sl_len v) 0 \<and> (\<exists>s<21. v \<in> set (blocks m ! s))"
  using assms(2)
proof (cases rule: GetBlock_cases)
  case (reuse j i)
  from assms(1) reuse(2) have j: "j < 21" by (simp add: wf_def)
  from scan_free_in_set(1)[OF reuse(5)] reuse(6) have v: "v \<in> set (blocks m ! j)" by simp
  from wf_block[OF assms(1) j v] have "sl_off v + sl_len v \<le> length (h ! sl_alloc v)"
    by (simp add: block_ok_def)
  from bytes_of_zero_block[OF assms(3) this] reuse(8) j v show ?thesis by blast
next
  case (fresh j)
  with assms(3) show ?thesis by (simp add: fresh_block_def)
qed

theorem GetBlock_reuse_zeroed_witness:
  "wf freed0 stale \<and> GetBlock 10 freed0 stale = Some (Inr block0, held0, zero_block block0 stale)
   \<and> sl_alloc block0 < length stale
   \<and> bytes_of stale block0 = replicate 1024 255
   \<and> bytes_of (zero_block block0 stale) block0 = replicate 1024 0"
  using GetBlock_reuse_zeroed[OF wf_freed0 scenario_get_again] wf_freed0 scenario_get_again
  by (simp add: block0_def stale_def bytes_of_def)

section \<open>The smallest sufficient class\<close>

text \<open>
  C3. For a request \<open>0 \<le> n \<le> 2^30\<close> on a manager whose mutex is free, \<open>GetBlock\<close> returns
  a view, and there is a class \<open>k\<close> of the table that holds its block, whose size
  \<open>1024 * 2^k\<close> is the capacity of the view and the length of its allocation, is at least
  \<open>n\<close>, and is the least such: every smaller class is too small for \<open>n\<close>.
\<close>

theorem GetBlock_smallest_sufficient_class:
  assumes "wf m h" "\<not> mutex m" "0 \<le> n" "n \<le> 2 ^ 30"
  shows "\<exists>v m' h' k. GetBlock n m h = Some (Inr v, m', h') \<and> k < 21
           \<and> (\<exists>b\<in>set (blocks m' ! k). block_key b = block_key v)
           \<and> sl_cap v = class_size k \<and> length (h' ! sl_alloc v) = class_size k
           \<and> n \<le> int (class_size k) \<and> (\<forall>t<k. int (class_size t) < n)"
proof -
  from GetBlock_in_range[OF assms] obtain v m' h' where
    g: "GetBlock n m h = Some (Inr v, m', h')" by blast
  from g show ?thesis
  proof (cases rule: GetBlock_cases)
    case (reuse j i)
    from assms(1) reuse(2) have j: "j < 21" by (simp add: wf_def)
    from scan_free_in_set(1)[OF reuse(5)] reuse(6) have v: "v \<in> set (blocks m ! j)" by simp
    from wf_block[OF assms(1) j v] have ok: "block_ok h j v" .
    then have "length (h' ! sl_alloc v) = class_size j"
      using reuse(8) by (simp add: block_ok_def nth_length_zero_block)
    with g j v ok reuse(3,4,7) show ?thesis
      by (auto simp: block_ok_def int_class_size intro!: exI[of _ v] exI[of _ m'] exI[of _ h'] exI[of _ j])
  next
    case (fresh j)
    from assms(1) fresh(2) have j: "j < 21" by (simp add: wf_def)
    from fresh(2) have "fresh_block h j \<in> set (blocks m' ! j)" using fresh(8) by simp
    moreover have "block_key (fresh_block h j) = block_key v"
      using fresh(7) by (simp add: block_key_def)
    moreover have "sl_cap v = class_size j" "length (h' ! sl_alloc v) = class_size j"
      using fresh(7,9) by (simp_all add: fresh_block_def)
    ultimately show ?thesis using g j fresh(3,4)
      by (auto simp: int_class_size intro!: exI[of _ v] exI[of _ m'] exI[of _ h'] exI[of _ j])
  qed
qed

theorem GetBlock_smallest_sufficient_class_witness:
  "wf NewManager [] \<and> \<not> mutex NewManager \<and> (0::int) \<le> 2000 \<and> (2000::int) \<le> 2 ^ 30
   \<and> (\<exists>v m' h' k. GetBlock 2000 NewManager [] = Some (Inr v, m', h') \<and> k < 21
           \<and> (\<exists>b\<in>set (blocks m' ! k). block_key b = block_key v)
           \<and> sl_cap v = class_size k \<and> length (h' ! sl_alloc v) = class_size k
           \<and> 2000 \<le> int (class_size k) \<and> (\<forall>t<k. int (class_size t) < 2000))"
  using GetBlock_smallest_sufficient_class[of NewManager "[]" 2000] wf_NewManager[of "[]"]
  by (simp add: NewManager_def)

section \<open>Callers side by side\<close>

lemma take_block_split:
  "take_block c s n m h =
     (case choose_block c s m of Inl e \<Rightarrow> (Inl e, m, h) | Inr p \<Rightarrow> hand_out n p m h)"
  by (simp add: take_block_def choose_block_def split: sum.splits option.splits)

lemma GetBlock_three_steps:
  assumes "GetBlock n m h = Some (r, m', h')"
  shows "interleave [0, 0, 0] \<lparr>c_mgr = m, c_heap = h, c_pcs = [Calling n]\<rparr>
           = \<lparr>c_mgr = m', c_heap = h', c_pcs = [Returned r]\<rparr>"
proof -
  from assms obtain ml where ml: "lock m = Some ml"
    by (auto simp: GetBlock_def split: option.splits)
  from assms ml obtain c s where cs: "find_class smallestBlockSize 0 n = Some (c, s)"
    by (auto simp: GetBlock_def split: option.splits)
  from assms ml cs obtain m2 where tb: "take_block c s n ml h = (r, m2, h')" "m' = unlock m2"
    by (auto simp: GetBlock_def split: prod.splits)
  show ?thesis
  proof (cases "choose_block c s ml")
    case (Inl e)
    with tb ml cs show ?thesis
      by (simp add: take_block_split thread_step_def)
  next
    case (Inr p)
    with tb ml cs show ?thesis
      by (simp add: take_block_split thread_step_def)
  qed
qed

lemma wf_mutex [simp]: "wf (m\<lparr>mutex := x\<rparr>) h = wf m h"
  by (simp add: wf_def)

lemma wf_unlock [simp]: "wf (unlock m) h = wf m h"
  by (simp add: unlock_def)

lemma choose_block_ok:
  assumes "wf m h" "find_class smallestBlockSize 0 n = Some (c, s)" "choose_block c s m = Inr p"
  shows "pick_ok m p"
proof -
  from find_class_result[OF assms(2)] obtain j where j: "c = 1024 * 2 ^ j" "s = int j" by blast
  from assms(1) have len: "length (blocks m) = 21" by (simp add: wf_def)
  from assms(3) j len have j21: "j < 21"
    by (auto simp: choose_block_def split: if_splits)
  from assms(3) j j21 len obtain r where r: "scan_free (used m) (blocks m ! j) 0 = Inr r"
    by (cases "scan_free (used m) (blocks m ! j) 0") (auto simp: choose_block_def)
  show ?thesis
  proof (cases r)
    case None
    with r assms(3) j j21 len have "p = Fresh c j" by (simp add: choose_block_def)
    with j j21 show ?thesis by (simp add: pick_ok_def int_class_size)
  next
    case (Some i)
    with r assms(3) j j21 len have p: "p = Reuse j i" by (simp add: choose_block_def)
    from Some r have "scan_free (used m) (blocks m ! j) 0 = Inr (Some i)" by simp
    from scan_free_found[OF this] p j21 show ?thesis by (simp add: pick_ok_def)
  qed
qed

lemma hand_out_ok:
  assumes "wf m h" "pick_ok m p" "hand_out n p m h = (r, m', h')"
  shows "wf m' h' \<and> mutex m' = mutex m \<and> dom (used m) \<subseteq> dom (used m')
         \<and> (\<forall>v. r = Inr v \<longrightarrow> block_key v \<notin> dom (used m) \<and> block_key v \<in> dom (used m'))"
proof (cases p)
  case (Reuse j i)
  let ?b = "blocks m ! j ! i"
  from assms(2) Reuse have j: "j < 21" and i: "i < length (blocks m ! j)"
    and free: "\<not> used_at (used m) (block_key ?b)" by (simp_all add: pick_ok_def)
  from i have b: "?b \<in> set (blocks m ! j)" by simp
  from assms(3) Reuse have res: "r = Inr ?b" "m' = m\<lparr>used := (used m)(block_key ?b \<mapsto> True)\<rparr>"
    "h' = zero_block ?b h" by (simp_all add: Let_def block_key_def)
  have "block_key ?b \<notin> dom (used m)"
  proof
    assume "block_key ?b \<in> dom (used m)"
    with assms(1) have "used m (block_key ?b) = Some True" unfolding wf_def by blast
    then have "used_at (used m) (block_key ?b)" by (simp add: used_at_def)
    with free show False by simp
  qed
  with wf_reuse[OF assms(1) j b] res show ?thesis by auto
next
  case (Fresh c j)
  from assms(2) Fresh have j: "j < 21" and c: "c = int (class_size j)" by (simp_all add: pick_ok_def)
  let ?nb = "fresh_block h j"
  have mk: "make_bytes h (nat c) = (h @ [replicate (class_size j) 0], ?nb)"
    using c by (simp add: make_bytes_def fresh_block_def)
  have a0: "addr0 ?nb = Inr (block_key ?nb)"
    by (simp add: addr0_def fresh_block_def block_key_def class_size_pos)
  from assms(3) Fresh c mk a0
  have st: "m' = m\<lparr>blocks := (blocks m)[j := blocks m ! j @ [?nb]],
                    used := (used m)(block_key ?nb \<mapsto> True)\<rparr>"
    "h' = h @ [replicate (class_size j) 0]"
    and rv: "\<forall>v. r = Inr v \<longrightarrow> block_key v = block_key ?nb"
    by (auto simp: Let_def reslice0_def block_key_def split: if_splits)
  have "block_key ?nb \<notin> dom (used m)"
  proof
    assume "block_key ?nb \<in> dom (used m)"
    with assms(1) obtain k b where kb: "k < 21" "b \<in> set (blocks m ! k)" "block_key ?nb = block_key b"
      unfolding wf_def by blast
    from wf_block[OF assms(1) kb(1,2)] have "sl_alloc b < length h" by (simp add: block_ok_def)
    with kb(3) show False by (simp add: block_key_def fresh_block_def)
  qed
  with wf_fresh[OF assms(1) j] st rv show ?thesis by auto
qed

lemma cs_only:
  "cs_ok held ps \<Longrightarrow> t < length ps \<Longrightarrow> in_cs (ps ! t) \<Longrightarrow> u < length ps \<Longrightarrow> u \<noteq> t
     \<Longrightarrow> \<not> in_cs (ps ! u)"
  unfolding cs_ok_def by blast

lemma cs_held: "cs_ok held ps \<Longrightarrow> t < length ps \<Longrightarrow> in_cs (ps ! t) \<Longrightarrow> held"
  unfolding cs_ok_def by blast

lemma cs_free: "cs_ok False ps \<Longrightarrow> u < length ps \<Longrightarrow> \<not> in_cs (ps ! u)"
  unfolding cs_ok_def by blast

lemma cs_ok_inside:
  assumes "t < length ps" "\<forall>u<length ps. u \<noteq> t \<longrightarrow> \<not> in_cs (ps ! u)" "in_cs q"
  shows "cs_ok True (ps[t := q])"
  unfolding cs_ok_def
proof (intro conjI allI impI)
  show "True \<longleftrightarrow> (\<exists>u<length (ps[t := q]). in_cs (ps[t := q] ! u))"
    using assms(1,3) by (auto intro!: exI[of _ t])
next
  fix a b
  assume ab: "a < length (ps[t := q]) \<and> b < length (ps[t := q])
     \<and> in_cs (ps[t := q] ! a) \<and> in_cs (ps[t := q] ! b)"
  have "x = t" if "x < length (ps[t := q])" "in_cs (ps[t := q] ! x)" for x
  proof (rule ccontr)
    assume "x \<noteq> t"
    with that assms(2) show False by simp
  qed
  with ab show "a = b" by metis
qed

lemma cs_ok_outside:
  assumes "t < length ps" "\<forall>u<length ps. u \<noteq> t \<longrightarrow> \<not> in_cs (ps ! u)" "\<not> in_cs q"
  shows "cs_ok False (ps[t := q])"
  unfolding cs_ok_def
proof (intro conjI allI impI)
  have none: "\<not> in_cs (ps[t := q] ! x)" if "x < length (ps[t := q])" for x
    using that assms by (cases "x = t") simp_all
  then show "False \<longleftrightarrow> (\<exists>u<length (ps[t := q]). in_cs (ps[t := q] ! u))" by blast
  fix a b
  assume "a < length (ps[t := q]) \<and> b < length (ps[t := q])
     \<and> in_cs (ps[t := q] ! a) \<and> in_cs (ps[t := q] ! b)"
  with none show "a = b" by blast
qed

lemma picks_ok_only:
  assumes "t < length ps" "\<forall>u<length ps. u \<noteq> t \<longrightarrow> \<not> in_cs (ps ! u)"
    "\<forall>n p. q = Picked n (Inr p) \<longrightarrow> pick_ok m p"
  shows "picks_ok m (ps[t := q])"
  unfolding picks_ok_def
proof (intro allI impI)
  fix u n p
  assume u: "u < length (ps[t := q]) \<and> ps[t := q] ! u = Picked n (Inr p)"
  show "pick_ok m p"
  proof (cases "u = t")
    case True
    with u assms(1,3) show ?thesis by simp
  next
    case False
    with u have "ps ! u = Picked n (Inr p)" "u < length ps" by simp_all
    with False assms(2) show ?thesis by (auto simp: in_cs_def)
  qed
qed

lemma views_ok_update:
  assumes "views_ok m ps" "t < length ps" "dom (used m) \<subseteq> dom (used m')"
    "\<forall>v. q = Returned (Inr v) \<longrightarrow> block_key v \<notin> dom (used m) \<and> block_key v \<in> dom (used m')"
    "\<forall>v. ps ! t \<noteq> Returned (Inr v)"
  shows "views_ok m' (ps[t := q])"
proof -
  have old: "block_key v \<in> dom (used m)" if "u < length ps" "ps ! u = Returned (Inr v)" for u v
    using assms(1) that unfolding views_ok_def by blast
  have dist: "block_key v \<noteq> block_key w"
    if "a < length ps" "b < length ps" "a \<noteq> b" "ps ! a = Returned (Inr v)" "ps ! b = Returned (Inr w)"
    for a b v w
    using assms(1) that unfolding views_ok_def by blast
  show ?thesis
    unfolding views_ok_def
  proof (intro conjI allI impI)
    fix u v
    assume u: "u < length (ps[t := q]) \<and> ps[t := q] ! u = Returned (Inr v)"
    show "block_key v \<in> dom (used m')"
    proof (cases "u = t")
      case True
      with u assms(2,4) show ?thesis by simp
    next
      case False
      with u old[of u v] assms(3) show ?thesis by auto
    qed
  next
    fix a b v w
    assume ab: "a < length (ps[t := q]) \<and> b < length (ps[t := q]) \<and> a \<noteq> b
       \<and> ps[t := q] ! a = Returned (Inr v) \<and> ps[t := q] ! b = Returned (Inr w)"
    show "block_key v \<noteq> block_key w"
    proof (cases "a = t")
      case True
      from ab True have bt: "b \<noteq> t" "b < length ps" by auto
      then have "ps[t := q] ! b = ps ! b" by simp
      with ab True assms(2) bt have q: "q = Returned (Inr v)"
        and b: "ps ! b = Returned (Inr w)" "b < length ps"
        by auto
      from q assms(4) have "block_key v \<notin> dom (used m)" by simp
      with old[OF b(2,1)] show ?thesis by auto
    next
      case False
      note a = this
      show ?thesis
      proof (cases "b = t")
        case True
        from ab a have al: "a < length ps" by auto
        from a have "ps[t := q] ! a = ps ! a" by simp
        with ab True assms(2) al have q: "q = Returned (Inr w)"
          and av: "ps ! a = Returned (Inr v)" "a < length ps"
          by auto
        from q assms(4) have "block_key w \<notin> dom (used m)" by simp
        with old[OF av(2,1)] show ?thesis by auto
      next
        case False
        with a ab dist[of a b v w] show ?thesis by simp
      qed
    qed
  qed
qed

lemma pick_ok_mutex [simp]: "pick_ok (m\<lparr>mutex := x\<rparr>) p = pick_ok m p"
  by (simp add: pick_ok_def split: pick.splits)

lemma inv_step:
  assumes "inv C"
  shows "inv (thread_step t C)"
proof (cases "length (c_pcs C) \<le> t")
  case True
  with assms show ?thesis by (simp add: thread_step_def)
next
  case False
  then have t: "t < length (c_pcs C)" by simp
  let ?m = "c_mgr C" and ?h = "c_heap C" and ?ps = "c_pcs C"
  from assms have wf: "wf ?m ?h" and cs: "cs_ok (mutex ?m) ?ps"
    and pk: "picks_ok ?m ?ps" and vw: "views_ok ?m ?ps" by (simp_all add: inv_def)
  show ?thesis
  proof (cases "?ps ! t")
    case (Calling n)
    show ?thesis
    proof (cases "mutex ?m")
      case True
      with Calling t assms show ?thesis by (simp add: thread_step_def lock_def)
    next
      case False
      with cs have nobody: "\<forall>u<length ?ps. u \<noteq> t \<longrightarrow> \<not> in_cs (?ps ! u)"
        using cs_free by auto
      have st: "thread_step t C = C\<lparr>c_mgr := ?m\<lparr>mutex := True\<rparr>, c_pcs := ?ps[t := Locked n]\<rparr>"
        using Calling t False by (simp add: thread_step_def lock_def)
      have "cs_ok True (?ps[t := Locked n])"
        by (rule cs_ok_inside[OF t nobody]) (simp add: in_cs_def)
      moreover have "picks_ok (?m\<lparr>mutex := True\<rparr>) (?ps[t := Locked n])"
        by (rule picks_ok_only[OF t nobody]) simp
      moreover have "views_ok (?m\<lparr>mutex := True\<rparr>) (?ps[t := Locked n])"
        by (rule views_ok_update[OF vw t]) (simp_all add: Calling)
      ultimately show ?thesis using wf by (simp add: st inv_def)
    qed
  next
    case (Locked n)
    then have in_t: "in_cs (?ps ! t)" by (simp add: in_cs_def)
    from cs_held[OF cs t in_t] have held: "mutex ?m" .
    have nobody: "\<forall>u<length ?ps. u \<noteq> t \<longrightarrow> \<not> in_cs (?ps ! u)"
      using cs_only[OF cs t in_t] by blast
    show ?thesis
    proof (cases "find_class smallestBlockSize 0 n")
      case None
      with Locked t assms show ?thesis by (simp add: thread_step_def)
    next
      case (Some r)
      obtain c s where r: "r = (c, s)" by (cases r)
      let ?q = "Picked n (choose_block c s ?m)"
      have st: "thread_step t C = C\<lparr>c_pcs := ?ps[t := ?q]\<rparr>"
        using Locked t Some r by (simp add: thread_step_def)
      have "cs_ok True (?ps[t := ?q])"
        by (rule cs_ok_inside[OF t nobody]) (simp add: in_cs_def)
      moreover have "picks_ok ?m (?ps[t := ?q])"
      proof (rule picks_ok_only[OF t nobody], intro allI impI)
        fix n' p assume "?q = Picked n' (Inr p)"
        then have "choose_block c s ?m = Inr p" by simp
        from choose_block_ok[OF wf Some[unfolded r] this] show "pick_ok ?m p" .
      qed
      moreover have "views_ok ?m (?ps[t := ?q])"
        by (rule views_ok_update[OF vw t]) (simp_all add: Locked)
      ultimately show ?thesis using wf held by (simp add: st inv_def)
    qed
  next
    case (Picked n x)
    then have in_t: "in_cs (?ps ! t)" by (simp add: in_cs_def)
    from cs_held[OF cs t in_t] have held: "mutex ?m" .
    have nobody: "\<forall>u<length ?ps. u \<noteq> t \<longrightarrow> \<not> in_cs (?ps ! u)"
      using cs_only[OF cs t in_t] by blast
    show ?thesis
    proof (cases x)
      case (Inl e)
      let ?q = "Returned (Inl e)"
      have st: "thread_step t C = C\<lparr>c_mgr := unlock ?m, c_pcs := ?ps[t := ?q]\<rparr>"
        using Picked t Inl by (simp add: thread_step_def)
      have "cs_ok False (?ps[t := ?q])"
        by (rule cs_ok_outside[OF t nobody]) (simp add: in_cs_def)
      moreover have "picks_ok (unlock ?m) (?ps[t := ?q])"
        by (rule picks_ok_only[OF t nobody]) simp
      moreover have "views_ok (unlock ?m) (?ps[t := ?q])"
        by (rule views_ok_update[OF vw t]) (simp_all add: Picked unlock_def)
      ultimately show ?thesis using wf by (simp add: st inv_def unlock_def)
    next
      case (Inr p)
      obtain r m' h' where ho: "hand_out n p ?m ?h = (r, m', h')" by (cases "hand_out n p ?m ?h")
      let ?q = "Returned r"
      have st: "thread_step t C = \<lparr>c_mgr = unlock m', c_heap = h', c_pcs = ?ps[t := ?q]\<rparr>"
        using Picked t Inr ho by (simp add: thread_step_def)
      from pk t Picked Inr have "pick_ok ?m p" unfolding picks_ok_def by blast
      from hand_out_ok[OF wf this ho] have ok: "wf m' h'" "dom (used ?m) \<subseteq> dom (used m')"
        "\<forall>v. r = Inr v \<longrightarrow> block_key v \<notin> dom (used ?m) \<and> block_key v \<in> dom (used m')"
        by blast+
      have "cs_ok False (?ps[t := ?q])"
        by (rule cs_ok_outside[OF t nobody]) (simp add: in_cs_def)
      moreover have "picks_ok (unlock m') (?ps[t := ?q])"
        by (rule picks_ok_only[OF t nobody]) simp
      moreover have "views_ok (unlock m') (?ps[t := ?q])"
        by (rule views_ok_update[OF vw t]) (use ok in \<open>simp_all add: Picked unlock_def\<close>)
      ultimately show ?thesis using ok(1) by (simp add: st inv_def unlock_def)
    qed
  next
    case (Returned r)
    with t assms show ?thesis by (simp add: thread_step_def)
  qed
qed

lemma inv_interleave: "inv C \<Longrightarrow> inv (interleave sched C)"
  by (induction sched arbitrary: C) (simp_all add: inv_step)

lemma inv_initial:
  assumes "wf m h" "\<not> mutex m"
  shows "inv \<lparr>c_mgr = m, c_heap = h, c_pcs = map Calling ns\<rparr>"
  using assms by (auto simp: inv_def cs_ok_def picks_ok_def views_ok_def in_cs_def)

lemma length_thread_step: "length (c_pcs (thread_step t C)) = length (c_pcs C)"
  by (simp add: thread_step_def split: pc.splits option.splits sum.splits prod.splits)

lemma length_interleave: "length (c_pcs (interleave sched C)) = length (c_pcs C)"
  by (induction sched arbitrary: C) (simp_all add: length_thread_step)

lemma GetBlock_unused:
  assumes "wf m h" "GetBlock n m h = Some (Inr v, m', h')"
  shows "block_key v \<notin> dom (used m) \<and> used m' (block_key v) = Some True"
proof -
  from assms(2) obtain ml c s where
    s: "lock m = Some ml" "find_class smallestBlockSize 0 n = Some (c, s)"
    by (auto simp: GetBlock_def split: option.splits)
  from s(1) have ml: "ml = m\<lparr>mutex := True\<rparr>" by (auto simp: lock_def split: if_splits)
  from assms(2) s obtain m2 where tb: "take_block c s n ml h = (Inr v, m2, h')" "m' = unlock m2"
    by (auto simp: GetBlock_def split: prod.splits)
  from tb(1) obtain p where p: "choose_block c s ml = Inr p" "hand_out n p ml h = (Inr v, m2, h')"
    by (cases "choose_block c s ml") (auto simp: take_block_split)
  from assms(1) ml have wfl: "wf ml h" by simp
  from hand_out_ok[OF wfl choose_block_ok[OF wfl s(2) p(1)] p(2)]
  have "wf m2 h'" "block_key v \<notin> dom (used ml)" "block_key v \<in> dom (used m2)" by blast+
  then show ?thesis using ml tb(2) unfolding wf_def by (auto simp: unlock_def)
qed

lemma scenario_two_callers:
  "interleave [0, 1, 0, 0, 1, 1, 1] \<lparr>c_mgr = freed0, c_heap = stale, c_pcs = map Calling [10, 10]\<rparr>
     = \<lparr>c_mgr = held0\<lparr>blocks := (replicate 21 [])[0 := [block0, block0\<lparr>sl_alloc := 1\<rparr>]],
                      used := [(0, 0) \<mapsto> True, (1, 0) \<mapsto> True]\<rparr>,
        c_heap = zero_block block0 stale @ [replicate 1024 0],
        c_pcs = [Returned (Inr block0), Returned (Inr (block0\<lparr>sl_alloc := 1, sl_len := 10\<rparr>))]\<rparr>"
  by (simp add: thread_step_def lock_def unlock_def find_class_10 choose_block_def freed0_def
      held0_def block0_def addr0_def used_at_def Let_def make_bytes_def reslice0_def
      length_zero_block stale_def)

section \<open>No double allocation\<close>

text \<open>
  C5. Callers of \<open>GetBlock\<close> run side by side, each taking its steps (lock; class search
  and scan; mark, zero or make, unlock and return) when the schedule names it. From a
  manager that satisfies the invariant with its mutex free, for every schedule and all
  sizes requested, two different callers that have returned views hold different blocks.
  A call that runs alone is three of these steps, the block it returns was not in the
  checked-out set before the call and is in it afterwards, and a call made while the
  mutex is held does not proceed.
\<close>

theorem GetBlock_no_double_allocation:
  assumes "wf m h" "\<not> mutex m"
  shows "(\<forall>sched ns t u v w.
            t < length ns \<and> u < length ns \<and> t \<noteq> u
            \<and> c_pcs (interleave sched \<lparr>c_mgr = m, c_heap = h, c_pcs = map Calling ns\<rparr>) ! t
                = Returned (Inr v)
            \<and> c_pcs (interleave sched \<lparr>c_mgr = m, c_heap = h, c_pcs = map Calling ns\<rparr>) ! u
                = Returned (Inr w)
            \<longrightarrow> block_key v \<noteq> block_key w)
         \<and> (\<forall>n r m' h'. GetBlock n m h = Some (r, m', h') \<longrightarrow>
              interleave [0, 0, 0] \<lparr>c_mgr = m, c_heap = h, c_pcs = [Calling n]\<rparr>
                = \<lparr>c_mgr = m', c_heap = h', c_pcs = [Returned r]\<rparr>
              \<and> (\<forall>x. r = Inr x \<longrightarrow>
                    block_key x \<notin> dom (used m) \<and> used m' (block_key x) = Some True))
         \<and> (\<forall>n. GetBlock n (m\<lparr>mutex := True\<rparr>) h = None)"
proof (intro conjI allI impI)
  fix sched ns t u v w
  let ?C = "interleave sched \<lparr>c_mgr = m, c_heap = h, c_pcs = map Calling ns\<rparr>"
  assume a: "t < length ns \<and> u < length ns \<and> t \<noteq> u
            \<and> c_pcs ?C ! t = Returned (Inr v) \<and> c_pcs ?C ! u = Returned (Inr w)"
  have "inv ?C" by (rule inv_interleave[OF inv_initial[OF assms]])
  then have vw: "views_ok (c_mgr ?C) (c_pcs ?C)" by (simp add: inv_def)
  have "length (c_pcs ?C) = length ns" by (simp add: length_interleave)
  with a vw show "block_key v \<noteq> block_key w" unfolding views_ok_def by metis
next
  fix n r m' h'
  assume g: "GetBlock n m h = Some (r, m', h')"
  then show "interleave [0, 0, 0] \<lparr>c_mgr = m, c_heap = h, c_pcs = [Calling n]\<rparr>
                = \<lparr>c_mgr = m', c_heap = h', c_pcs = [Returned r]\<rparr>"
    by (rule GetBlock_three_steps)
  fix x assume "r = Inr x"
  with g GetBlock_unused[OF assms(1)] show "block_key x \<notin> dom (used m)"
    "used m' (block_key x) = Some True" by blast+
next
  fix n show "GetBlock n (m\<lparr>mutex := True\<rparr>) h = None" by (simp add: GetBlock_def lock_def)
qed

theorem GetBlock_no_double_allocation_witness:
  "wf freed0 stale \<and> \<not> mutex freed0
   \<and> c_pcs (interleave [0, 1, 0, 0, 1, 1, 1]
             \<lparr>c_mgr = freed0, c_heap = stale, c_pcs = map Calling [10, 10]\<rparr>)
       = [Returned (Inr block0), Returned (Inr (block0\<lparr>sl_alloc := 1, sl_len := 10\<rparr>))]
   \<and> block_key block0 \<noteq> block_key (block0\<lparr>sl_alloc := 1, sl_len := 10\<rparr>)
   \<and> GetBlock 10 freed0 stale = Some (Inr block0, held0, zero_block block0 stale)
   \<and> interleave [0, 0, 0] \<lparr>c_mgr = freed0, c_heap = stale, c_pcs = [Calling 10]\<rparr>
       = \<lparr>c_mgr = held0, c_heap = zero_block block0 stale, c_pcs = [Returned (Inr block0)]\<rparr>
   \<and> block_key block0 \<notin> dom (used freed0) \<and> used held0 (block_key block0) = Some True
   \<and> GetBlock 10 (freed0\<lparr>mutex := True\<rparr>) stale = None"
proof -
  have nm: "\<not> mutex freed0" by (simp add: freed0_def)
  note t = GetBlock_no_double_allocation[OF wf_freed0 nm]
  let ?C = "interleave [0, 1, 0, 0, 1, 1, 1]
              \<lparr>c_mgr = freed0, c_heap = stale, c_pcs = map Calling [10, 10]\<rparr>"
  have ps: "c_pcs ?C = [Returned (Inr block0), Returned (Inr (block0\<lparr>sl_alloc := 1, sl_len := 10\<rparr>))]"
    by (simp only: scenario_two_callers config.simps)
  have "(0::nat) < length [10, 10::int] \<and> (1::nat) < length [10, 10::int] \<and> (0::nat) \<noteq> 1
        \<and> c_pcs ?C ! 0 = Returned (Inr block0)
        \<and> c_pcs ?C ! 1 = Returned (Inr (block0\<lparr>sl_alloc := 1, sl_len := 10\<rparr>))"
    unfolding ps by simp
  with t have d: "block_key block0 \<noteq> block_key (block0\<lparr>sl_alloc := 1, sl_len := 10\<rparr>)"
    by blast
  from t scenario_get_again[of stale]
  have s: "interleave [0, 0, 0] \<lparr>c_mgr = freed0, c_heap = stale, c_pcs = [Calling 10]\<rparr>
       = \<lparr>c_mgr = held0, c_heap = zero_block block0 stale, c_pcs = [Returned (Inr block0)]\<rparr>"
    "block_key block0 \<notin> dom (used freed0)" "used held0 (block_key block0) = Some True"
    by blast+
  from t have l: "GetBlock 10 (freed0\<lparr>mutex := True\<rparr>) stale = None" by blast
  from wf_freed0 nm ps d scenario_get_again[of stale] s l show ?thesis by (intro conjI)
qed

section \<open>Requests beyond the largest class\<close>

text \<open>
  C6, as the code has it. A request above the largest class, \<open>1024 * 2^20 = 2^30\<close> bytes,
  and up to \<open>2^62\<close> ends the class search at an index of 21 or more, and the lookup
  \<open>m.blocks[s]\<close> panics with Go's index-out-of-range error: the class table is not grown
  and nothing of the manager or the heap has changed.
\<close>

theorem GetBlock_beyond_largest_class_panics:
  assumes "2 ^ 30 < n" "n \<le> 2 ^ 62" "\<not> mutex m" "length (blocks m) = 21"
  shows "GetBlock n m h = Some (Inl IndexOutOfRange, m, h)"
proof -
  from find_class_returns[OF assms(2)] obtain c s where
    cs: "find_class smallestBlockSize 0 n = Some (c, s)" by blast
  from find_class_beyond[OF cs assms(1)] have "21 \<le> s" .
  with assms(4) have "take_block c s n (m\<lparr>mutex := True\<rparr>) h = (Inl IndexOutOfRange, m\<lparr>mutex := True\<rparr>, h)"
    by (simp add: take_block_def)
  with cs assms(3) show ?thesis
    by (simp add: GetBlock_def lock_def unlock_lock)
qed

theorem GetBlock_beyond_largest_class_panics_witness:
  "(2::int) ^ 30 < 2 ^ 30 + 1 \<and> (2::int) ^ 30 + 1 \<le> 2 ^ 62 \<and> \<not> mutex NewManager
   \<and> length (blocks NewManager) = 21
   \<and> GetBlock (2 ^ 30 + 1) NewManager [] = Some (Inl IndexOutOfRange, NewManager, [])"
  using GetBlock_beyond_largest_class_panics[of "2 ^ 30 + 1" NewManager "[]"]
  by (simp add: NewManager_def)

text \<open>
  C6, as stated, fails above \<open>2^62\<close>: for \<open>n = 2^62 + 1\<close> the doubling of \<open>c\<close> overflows
  to \<open>-2^63\<close> and then to \<open>0\<close>, \<open>c < n\<close> holds for ever, and the call on a new manager
  never returns, so it signals no error.
\<close>

theorem GetBlock_huge_request_never_returns:
  "GetBlock (2 ^ 62 + 1) NewManager [] = None"
proof -
  have "find_class 1024 0 (2 ^ 62 + 1) = None" by (rule find_class_diverges) simp
  then show ?thesis by (simp add: GetBlock_def lock_def NewManager_def smallestBlockSize_def)
qed

section \<open>The length of the view\<close>

text \<open>
  C1 fails on the reuse path. The run: \<open>GetBlock(10)\<close> on a new manager makes a block of
  1024 bytes and returns its first 10 bytes; the caller frees the view; the next
  \<open>GetBlock(10)\<close> finds the block free and returns \<open>m.blocks[s][i]\<close> itself, a view of
  1024 bytes and not of 10: the path that makes a block slices it with \<open>[0:n]\<close>, the path
  that reuses one does not.
\<close>

theorem GetBlock_reuse_returns_whole_block:
  "GetBlock 10 NewManager [] = Some (Inr (block0\<lparr>sl_len := 10\<rparr>), held0, [replicate 1024 0])
   \<and> FreeBlock (block0\<lparr>sl_len := 10\<rparr>) held0 stale = Some (Inr (), freed0, stale)
   \<and> GetBlock 10 freed0 stale = Some (Inr block0, held0, zero_block block0 stale)
   \<and> sl_len (block0\<lparr>sl_len := 10\<rparr>) = 10 \<and> sl_len block0 = 1024"
  by (simp add: scenario_get scenario_free scenario_get_again) (simp add: block0_def)

section \<open>Freeing a block that is not checked out\<close>

text \<open>
  C4. With the mutex free, \<open>FreeBlock\<close> on a view whose first byte is not a key of the
  checked-out set (the block was never acquired from this manager, or was freed, or the
  view is empty) panics and leaves the manager and the heap as they were. And after a
  \<open>FreeBlock\<close> that returned, \<open>FreeBlock\<close> on the same view panics with
  "Tried to free an unused block": the first call removed the key.
\<close>

theorem FreeBlock_unused_panics:
  "(\<not> mutex m \<and> (\<forall>p. addr0 b = Inr p \<longrightarrow> p \<notin> dom (used m))
      \<longrightarrow> (\<exists>e. FreeBlock b m h = Some (Inl e, m, h)))
   \<and> (FreeBlock b m h = Some (Inr u, m', h')
      \<longrightarrow> FreeBlock b m' h' = Some (Inl (Panic ''Tried to free an unused block''), m', h'))"
proof (intro conjI impI)
  assume a: "\<not> mutex m \<and> (\<forall>p. addr0 b = Inr p \<longrightarrow> p \<notin> dom (used m))"
  show "\<exists>e. FreeBlock b m h = Some (Inl e, m, h)"
  proof (cases "addr0 b")
    case (Inl e)
    with a show ?thesis by (simp add: FreeBlock_def lock_def unlock_lock)
  next
    case (Inr p)
    with a have "used m p = None" by auto
    with a Inr show ?thesis by (simp add: FreeBlock_def lock_def unlock_lock)
  qed
next
  assume f: "FreeBlock b m h = Some (Inr u, m', h')"
  then have nm: "\<not> mutex m" by (auto simp: FreeBlock_def lock_def split: if_splits)
  from f nm obtain p where p: "addr0 b = Inr p"
    by (cases "addr0 b") (auto simp: FreeBlock_def lock_def)
  from f nm p have m': "m' = m\<lparr>used := (used m)(p := None)\<rparr>" "h' = h"
    by (auto simp: FreeBlock_def lock_def unlock_lock_used split: option.splits)
  with nm p show "FreeBlock b m' h' = Some (Inl (Panic ''Tried to free an unused block''), m', h')"
    by (simp add: FreeBlock_def lock_def unlock_lock)
qed

theorem FreeBlock_unused_panics_witness:
  "\<not> mutex freed0 \<and> addr0 block0 = Inr (0, 0) \<and> (0, 0) \<notin> dom (used freed0)
   \<and> (\<exists>e. FreeBlock block0 freed0 stale = Some (Inl e, freed0, stale))
   \<and> FreeBlock block0 held0 stale = Some (Inr (), freed0, stale)
   \<and> FreeBlock block0 freed0 stale = Some (Inl (Panic ''Tried to free an unused block''), freed0, stale)"
proof -
  have h: "\<not> mutex freed0" "addr0 block0 = Inr (0, 0)" "(0, 0) \<notin> dom (used freed0)"
    by (simp_all add: freed0_def addr0_def block0_def)
  note t1 = FreeBlock_unused_panics[of freed0 block0 stale]
  note t2 = FreeBlock_unused_panics[of held0 block0 stale "()" freed0 stale]
  from t1 h have "\<exists>e. FreeBlock block0 freed0 stale = Some (Inl e, freed0, stale)" by simp
  moreover from t2 scenario_free_whole[of stale]
  have "FreeBlock block0 freed0 stale = Some (Inl (Panic ''Tried to free an unused block''), freed0, stale)"
    by simp
  ultimately show ?thesis using h scenario_free_whole[of stale] by simp
qed

section \<open>What \<open>FreeBlock\<close> changes\<close>

text \<open>
  C9. \<open>FreeBlock\<close> on a view whose first byte \<open>p\<close> is a key of the checked-out set
  returns, and the state it leaves is the one before with \<open>p\<close> removed from the
  checked-out set: the class table, the mutex and every byte of the heap are the same.
  Under the invariant \<open>p\<close> is the key of a block of some class \<open>k\<close>, that block is now
  free, and the scan of class \<open>k\<close> finds a free block, so a later \<open>GetBlock\<close> of that class
  reuses one.
\<close>

theorem FreeBlock_effect:
  assumes "\<not> mutex m" "addr0 b = Inr p" "p \<in> dom (used m)"
  shows "FreeBlock b m h = Some (Inr (), m\<lparr>used := (used m)(p := None)\<rparr>, h)
         \<and> (wf m h \<longrightarrow> (\<exists>k<21. \<exists>b'\<in>set (blocks m ! k). block_key b' = p
                \<and> \<not> used_at ((used m)(p := None)) (block_key b')
                \<and> (\<exists>i. scan_free ((used m)(p := None)) (blocks m ! k) 0 = Inr (Some i))))"
proof (intro conjI impI)
  from assms show "FreeBlock b m h = Some (Inr (), m\<lparr>used := (used m)(p := None)\<rparr>, h)"
    by (auto simp: FreeBlock_def lock_def unlock_lock_used)
next
  assume wf: "wf m h"
  with assms(3) obtain k b' where kb: "k < 21" "b' \<in> set (blocks m ! k)" "p = block_key b'"
    unfolding wf_def by blast
  have free: "\<not> used_at ((used m)(p := None)) (block_key b')"
    using kb(3) by (simp add: used_at_def)
  have "\<forall>x\<in>set (blocks m ! k). sl_len x \<noteq> 0"
    using wf_block[OF wf kb(1)] by (auto simp: block_ok_def class_size_def)
  from scan_free_finds[OF this kb(2) free]
  have "\<exists>i. scan_free ((used m)(p := None)) (blocks m ! k) 0 = Inr (Some i)" .
  with kb free show "\<exists>k<21. \<exists>b'\<in>set (blocks m ! k). block_key b' = p
                \<and> \<not> used_at ((used m)(p := None)) (block_key b')
                \<and> (\<exists>i. scan_free ((used m)(p := None)) (blocks m ! k) 0 = Inr (Some i))"
    by blast
qed

theorem FreeBlock_effect_witness:
  "\<not> mutex held0 \<and> addr0 block0 = Inr (0, 0) \<and> (0, 0) \<in> dom (used held0) \<and> wf held0 stale
   \<and> FreeBlock block0 held0 stale = Some (Inr (), held0\<lparr>used := (used held0)((0, 0) := None)\<rparr>, stale)
   \<and> (\<exists>k<21. \<exists>b'\<in>set (blocks held0 ! k). block_key b' = (0, 0)
                \<and> \<not> used_at ((used held0)((0, 0) := None)) (block_key b')
                \<and> (\<exists>i. scan_free ((used held0)((0, 0) := None)) (blocks held0 ! k) 0 = Inr (Some i)))"
proof -
  have h: "\<not> mutex held0" "addr0 block0 = Inr (0, 0)" "(0, 0) \<in> dom (used held0)"
    by (simp_all add: held0_def addr0_def block0_def)
  from FreeBlock_effect[OF h, of stale] wf_held0 h show ?thesis by simp
qed

section \<open>A view of length zero\<close>

text \<open>
  When class 0 has no free block, \<open>GetBlock(0)\<close> makes a block and returns a view of
  length zero, and \<open>FreeBlock\<close> on that view panics with Go's index-out-of-range error at
  \<open>&b[0]\<close>, in any heap.
\<close>

lemma zero_view_unfreeable:
  assumes "\<not> mutex m" "blocks m \<noteq> []" "scan_free (used m) (blocks m ! 0) 0 = Inr None"
  shows "\<exists>v m' h'. GetBlock 0 m h = Some (Inr v, m', h') \<and> sl_len v = 0
           \<and> (\<forall>g. FreeBlock v m' g = Some (Inl IndexOutOfRange, m', g))"
proof -
  from assms(2) have l: "0 < length (blocks m)" by simp
  have fc: "find_class smallestBlockSize 0 0 = Some (1024 * 2 ^ 0, int 0)"
    using find_class_0 by simp
  let ?m = "m\<lparr>blocks := (blocks m)[0 := blocks m ! 0 @ [fresh_block h 0]],
                   used := (used m)(block_key (fresh_block h 0) \<mapsto> True)\<rparr>"
  from fresh_path[OF assms(1) fc l assms(3), of h]
  have g: "GetBlock 0 m h = Some (Inr (fresh_block h 0\<lparr>sl_len := nat 0\<rparr>), ?m, h @ [replicate (class_size 0) 0])"
    by simp
  have "\<not> mutex ?m" using assms(1) by simp
  then have "FreeBlock (fresh_block h 0\<lparr>sl_len := nat 0\<rparr>) ?m g = Some (Inl IndexOutOfRange, ?m, g)" for g
    by (simp add: FreeBlock_def lock_def addr0_def unlock_lock del: Manager.simps)
  with g show ?thesis by simp
qed

text \<open>
  C10 fails on the reuse path. After \<open>GetBlock(10)\<close> and \<open>FreeBlock\<close> class 0 has a free
  block; \<open>GetBlock(0)\<close> then returns the whole block, a view of 1024 bytes and not of
  length zero, and \<open>FreeBlock\<close> on it returns normally. The cause is that of C1: the
  reuse path returns \<open>m.blocks[s][i]\<close> without the \<open>[0:n]\<close>.
\<close>

theorem GetBlock_zero_reuse_is_freeable:
  "GetBlock 10 NewManager [] = Some (Inr (block0\<lparr>sl_len := 10\<rparr>), held0, [replicate 1024 0])
   \<and> FreeBlock (block0\<lparr>sl_len := 10\<rparr>) held0 stale = Some (Inr (), freed0, stale)
   \<and> GetBlock 0 freed0 stale = Some (Inr block0, held0, zero_block block0 stale)
   \<and> sl_len block0 = 1024
   \<and> FreeBlock block0 held0 (zero_block block0 stale) = Some (Inr (), freed0, zero_block block0 stale)"
  by (simp add: scenario_get scenario_free scenario_get_zero scenario_free_whole) (simp add: block0_def)

section \<open>The report\<close>

lemma blocks_held0: "(replicate 21 [])[0 := [b]] = [b] # replicate 20 []"
  by (simp add: numeral_eq_Suc)

lemma report_loop_empty: "report_loop u (replicate k []) c ret 0 0 = Inr (ret, 0, 0)"
  by (induction k arbitrary: c) (simp_all add: wrap64_def)

lemma report_loop_after_first:
  "report_loop u (replicate k []) c ret 1024 1024 = Inr (ret, 1024, 1024)"
  by (induction k arbitrary: c) (simp_all add: wrap64_def)

lemma report_held0:
  "TotalAllocations (held0\<lparr>mutex := True\<rparr>) h =
     Some (Inr (''1024 bytes: 1/1 blocks in use.'' @ newline
                 @ ''Total memory used/allocated: 1024/1024'' @ newline),
           held0\<lparr>mutex := True\<rparr>, h)"
  by (simp add: TotalAllocations_def held0_def blocks_held0 smallestBlockSize_def
      block0_def addr0_def used_at_def wrap64_def report_loop_after_first show_int_def digits.simps)

text \<open>
  C7 fails on the lock. \<open>TotalAllocations\<close> does not call \<open>m.mutex.Lock()\<close>: on a manager
  whose mutex is held (another caller is inside \<open>GetBlock\<close> or \<open>FreeBlock\<close>) it runs to
  the end and returns its report, where \<open>GetBlock\<close> and \<open>FreeBlock\<close> wait for the mutex.
  The state it returns is the state it was given.
\<close>

theorem TotalAllocations_runs_without_the_lock:
  "TotalAllocations (held0\<lparr>mutex := True\<rparr>) stale =
     Some (Inr (''1024 bytes: 1/1 blocks in use.'' @ newline
                 @ ''Total memory used/allocated: 1024/1024'' @ newline),
           held0\<lparr>mutex := True\<rparr>, stale)
   \<and> GetBlock 10 (held0\<lparr>mutex := True\<rparr>) stale = None
   \<and> FreeBlock block0 (held0\<lparr>mutex := True\<rparr>) stale = None"
  by (simp add: report_held0 GetBlock_def FreeBlock_def lock_def)

section \<open>The bytes allocated never decrease\<close>

lemma class_bytes_grow:
  "i < length bss \<Longrightarrow>
     class_bytes k (bss[i := bss ! i @ [x]]) = class_bytes k bss + class_size (k + i)"
proof (induction bss arbitrary: k i)
  case Nil
  then show ?case by simp
next
  case (Cons bs bss)
  show ?case
  proof (cases i)
    case 0
    then show ?thesis by simp
  next
    case (Suc i')
    with Cons.prems have "i' < length bss" by simp
    from Cons.IH[OF this, of "Suc k"] Suc show ?thesis by simp
  qed
qed

lemma take_block_blocks:
  assumes "take_block c s n m h = (r, m', h')"
  shows "blocks m' =
           (if 0 \<le> s \<and> nat s < length (blocks m) \<and> 0 \<le> c
               \<and> scan_free (used m) (blocks m ! nat s) 0 = Inr None
            then (blocks m)[nat s := blocks m ! nat s @ [snd (make_bytes h (nat c))]]
            else blocks m)"
  using assms
  by (auto simp: take_block_def Let_def split: if_splits sum.splits option.splits prod.splits)

lemma GetBlock_total_bytes:
  assumes "GetBlock n m h = Some (r, m', h')"
  shows "\<exists>j. find_class smallestBlockSize 0 n = Some (int (class_size j), int j)
           \<and> total_bytes m' = total_bytes m
               + (if j < length (blocks m) \<and> scan_free (used m) (blocks m ! j) 0 = Inr None
                  then class_size j else 0)"
proof -
  from assms have nm: "\<not> mutex m" by (auto simp: GetBlock_def lock_def split: if_splits)
  from assms nm obtain c s where cs: "find_class smallestBlockSize 0 n = Some (c, s)"
    by (auto simp: GetBlock_def lock_def split: option.splits)
  from find_class_result[OF cs] obtain j where
    j: "c = 1024 * 2 ^ j" "s = int j" by blast
  from assms nm cs obtain m'' where
    tb: "take_block c s n (m\<lparr>mutex := True\<rparr>) h = (r, m'', h')" "m' = unlock m''"
    by (auto simp: GetBlock_def lock_def split: prod.splits)
  from take_block_blocks[OF tb(1)] tb(2) j
  have "blocks m' =
           (if j < length (blocks m) \<and> scan_free (used m) (blocks m ! j) 0 = Inr None
            then (blocks m)[j := blocks m ! j @ [snd (make_bytes h (nat c))]]
            else blocks m)"
    by (simp add: unlock_def)
  then have "total_bytes m' = total_bytes m
               + (if j < length (blocks m) \<and> scan_free (used m) (blocks m ! j) 0 = Inr None
                  then class_size j else 0)"
    by (simp add: total_bytes_def class_bytes_grow)
  with cs j show ?thesis by (auto simp: int_class_size)
qed

lemma FreeBlock_blocks:
  assumes "FreeBlock b m h = Some (r, m', h')"
  shows "blocks m' = blocks m"
  using assms
  by (auto simp: FreeBlock_def lock_def unlock_def split: if_splits sum.splits option.splits)

lemma TotalAllocations_state:
  assumes "TotalAllocations m h = Some (r, m', h')"
  shows "m' = m \<and> h' = h"
  using assms
  by (auto simp: TotalAllocations_def split: sum.splits prod.splits)

lemma exec_total_bytes:
  assumes "exec c (m, h) = Some (m', h')"
  shows "total_bytes m \<le> total_bytes m'"
proof (cases c)
  case (Get n)
  with assms obtain r where "GetBlock n m h = Some (r, m', h')" by auto
  from GetBlock_total_bytes[OF this] show ?thesis by auto
next
  case (Free b)
  with assms obtain r where "FreeBlock b m h = Some (r, m', h')" by auto
  from FreeBlock_blocks[OF this] show ?thesis by (simp add: total_bytes_def)
next
  case Report
  with assms obtain r where "TotalAllocations m h = Some (r, m', h')" by auto
  from TotalAllocations_state[OF this] show ?thesis by simp
qed

lemma run_total_bytes:
  "run cs (m, h) = Some (m', h') \<Longrightarrow> total_bytes m \<le> total_bytes m'"
proof (induction cs arbitrary: m h)
  case Nil
  then show ?case by simp
next
  case (Cons c cs)
  from Cons.prems obtain m1 h1 where
    s: "exec c (m, h) = Some (m1, h1)" "run cs (m1, h1) = Some (m', h')"
    by (auto split: option.splits)
  from exec_total_bytes[OF s(1)] Cons.IH[OF s(2)] show ?case by simp
qed

lemma class_bytes_empty: "class_bytes k (replicate n []) = 0"
  by (induction n arbitrary: k) simp_all

lemma total_bytes_NewManager: "total_bytes NewManager = 0"
  by (simp add: total_bytes_def NewManager_def class_bytes_empty)

lemma total_bytes_held0: "total_bytes held0 = 1024"
  by (simp add: total_bytes_def held0_def blocks_held0 class_bytes_empty class_size_def)

lemma report_NewManager:
  "TotalAllocations NewManager h =
     Some (Inr (''Total memory used/allocated: 0/0'' @ newline), NewManager, h)"
  by (simp add: TotalAllocations_def NewManager_def report_loop_empty show_int_def digits.simps)

lemma scenario_free_new:
  "FreeBlock block0 NewManager h =
     Some (Inl (Panic ''Tried to free an unused block''), NewManager, h)"
  by (simp add: FreeBlock_def lock_def unlock_def addr0_def NewManager_def block0_def)

lemma scenario_run:
  "run [Get 10, Free (block0\<lparr>sl_len := 10\<rparr>), Report, Get 10] (NewManager, [])
     = Some (held0, zero_block block0 [replicate 1024 0])"
proof -
  have "TotalAllocations freed0 h \<noteq> None" for h
    by (simp add: TotalAllocations_def split: sum.splits prod.splits)
  then obtain r m' h' where "TotalAllocations freed0 [replicate 1024 0] = Some (r, m', h')"
    by (metis option.exhaust prod_cases3)
  moreover from TotalAllocations_state[OF this] have "m' = freed0" "h' = [replicate 1024 0]"
    by simp_all
  ultimately show ?thesis
    by (simp add: scenario_get scenario_free scenario_get_again)
qed

lemma is_int64_nonneg: "0 \<le> x \<Longrightarrow> x < 2 ^ 63 \<Longrightarrow> is_int64 x"
  by (simp add: is_int64_def)

lemma count_used_bound:
  assumes "\<forall>b\<in>set bs. sl_len b \<noteq> 0" "0 \<le> k" "k + int (length bs) < 2 ^ 63"
  shows "\<exists>k'. count_used u bs k = Inr k' \<and> k \<le> k' \<and> k' \<le> k + int (length bs)"
  using assms
proof (induction bs arbitrary: k)
  case Nil
  then show ?case by simp
next
  case (Cons b bs)
  let ?k = "if used_at u (sl_alloc b, sl_off b) then wrap64 (k + 1) else k"
  from Cons.prems have "is_int64 (k + 1)" by (intro is_int64_nonneg) simp_all
  then have w: "wrap64 (k + 1) = k + 1" by (rule wrap64_id)
  with Cons.prems have k: "0 \<le> ?k" "?k + int (length bs) < 2 ^ 63" "k \<le> ?k" "?k \<le> k + 1"
    by auto
  from Cons.prems(1) have "\<forall>b\<in>set bs. sl_len b \<noteq> 0" by simp
  from Cons.IH[OF this k(1,2)] obtain k' where
    "count_used u bs ?k = Inr k'" "?k \<le> k'" "k' \<le> ?k + int (length bs)" by blast
  with k(3,4) Cons.prems(1) show ?case by (auto simp: addr0_def)
qed

lemma report_loop_total:
  assumes "\<forall>bs\<in>set bss. \<forall>b\<in>set bs. sl_len b \<noteq> 0" "k + length bss \<le> 52"
    "0 \<le> ta" "ta + int (class_bytes k bss) < 2 ^ 63"
  shows "\<exists>ret' tu'. report_loop u bss (int (class_size k)) ret tu ta
           = Inr (ret', tu', ta + int (class_bytes k bss))"
  using assms
proof (induction bss arbitrary: k ret tu ta)
  case Nil
  then show ?case by simp
next
  case (Cons bs bss)
  let ?c = "int (class_size k)"
  let ?n = "int (length bs)"
  have "0 < class_size k" by (rule class_size_pos)
  then have cpos: "1 \<le> ?c" by linarith
  have "?n * 1 \<le> ?n * ?c" using cpos by (intro mult_left_mono) simp_all
  moreover from Cons.prems(3,4) have prod: "ta + ?n * ?c < 2 ^ 63" "?n * ?c < 2 ^ 63"
    by (simp_all add: mult.commute)
  ultimately have n: "0 + ?n < 2 ^ 63" by simp
  from Cons.prems(1) have ne: "\<forall>b\<in>set bs. sl_len b \<noteq> 0" by simp
  from count_used_bound[OF ne _ n, of u] obtain k' where
    k': "count_used u bs 0 = Inr k'" by auto
  have nn: "0 \<le> ?n * ?c" by simp
  have "is_int64 (?n * ?c)" using nn prod(2) by (rule is_int64_nonneg)
  then have w1: "wrap64 (?n * ?c) = ?n * ?c" by (rule wrap64_id)
  have "is_int64 (ta + ?n * ?c)" using nn prod(1) Cons.prems(3) by (intro is_int64_nonneg) simp_all
  then have w2: "wrap64 (ta + ?n * ?c) = ta + ?n * ?c" by (rule wrap64_id)
  from Cons.prems(2) have "k < 52" by simp
  from wrap64_double_class[OF this] have w3: "wrap64 (?c * 2) = int (class_size (Suc k))"
    by (simp add: class_size_def)
  have "\<exists>ret' tu'. report_loop u bss (int (class_size (Suc k))) ret2 tu2 (ta + ?n * ?c)
           = Inr (ret', tu', ta + ?n * ?c + int (class_bytes (Suc k) bss))" for ret2 tu2
    using Cons.prems by (intro Cons.IH) (simp_all add: mult.commute)
  then show ?case using k' w1 w2 w3 by (simp add: mult.commute add.assoc)
qed

text \<open>
  The total that \<open>TotalAllocations\<close> computes as \<open>total_allocated\<close> is \<open>total_bytes\<close>, as
  long as it fits the machine integer.
\<close>

lemma TotalAllocations_reports_total_bytes:
  assumes "wf m h" "total_bytes m < 2 ^ 63"
  shows "\<exists>ret tu. report_loop (used m) (blocks m) smallestBlockSize [] 0 0
           = Inr (ret, tu, int (total_bytes m))"
proof -
  have ne: "\<forall>bs\<in>set (blocks m). \<forall>b\<in>set bs. sl_len b \<noteq> 0"
  proof (intro ballI)
    fix bs b assume "bs \<in> set (blocks m)" "b \<in> set bs"
    then obtain k where "k < length (blocks m)" "bs = blocks m ! k" by (auto simp: in_set_conv_nth)
    with assms(1) \<open>b \<in> set bs\<close> have "block_ok h k b" by (simp add: wf_def)
    then show "sl_len b \<noteq> 0" by (simp add: block_ok_def class_size_def)
  qed
  from assms(1) have "0 + length (blocks m) \<le> 52" by (simp add: wf_def)
  from report_loop_total[OF ne this, of 0 "used m" "[]" 0] assms(2)
  show ?thesis by (simp add: total_bytes_def smallestBlockSize_def class_size_def)
qed

text \<open>
  C8. Over any run of \<open>GetBlock\<close>, \<open>FreeBlock\<close> and \<open>TotalAllocations\<close> calls the total
  bytes allocated do not decrease. A \<open>GetBlock\<close> call that ends (with a view or a panic)
  has found a class \<open>j\<close>, and the total grows by exactly the size of class \<open>j\<close> when
  \<open>j\<close> is in the table and the scan finds no free block in it, and not at all otherwise.
  \<open>FreeBlock\<close> and \<open>TotalAllocations\<close> leave the total as it was.
\<close>

theorem total_bytes_monotone:
  "(run cs (m, h) = Some (m', h') \<longrightarrow> total_bytes m \<le> total_bytes m')
   \<and> (GetBlock n m h = Some (r1, m1, h1) \<longrightarrow>
        (\<exists>j. find_class smallestBlockSize 0 n = Some (int (class_size j), int j)
           \<and> total_bytes m1 = total_bytes m
               + (if j < length (blocks m) \<and> scan_free (used m) (blocks m ! j) 0 = Inr None
                  then class_size j else 0)))
   \<and> (FreeBlock b m h = Some (r2, m2, h2) \<longrightarrow> total_bytes m2 = total_bytes m)
   \<and> (TotalAllocations m h = Some (r3, m3, h3) \<longrightarrow> total_bytes m3 = total_bytes m)"
proof (intro conjI impI)
  assume "run cs (m, h) = Some (m', h')"
  then show "total_bytes m \<le> total_bytes m'" by (rule run_total_bytes)
next
  assume "GetBlock n m h = Some (r1, m1, h1)"
  then show "\<exists>j. find_class smallestBlockSize 0 n = Some (int (class_size j), int j)
           \<and> total_bytes m1 = total_bytes m
               + (if j < length (blocks m) \<and> scan_free (used m) (blocks m ! j) 0 = Inr None
                  then class_size j else 0)"
    by (rule GetBlock_total_bytes)
next
  assume "FreeBlock b m h = Some (r2, m2, h2)"
  from FreeBlock_blocks[OF this] show "total_bytes m2 = total_bytes m"
    by (simp add: total_bytes_def)
next
  assume "TotalAllocations m h = Some (r3, m3, h3)"
  from TotalAllocations_state[OF this] show "total_bytes m3 = total_bytes m" by simp
qed

theorem total_bytes_monotone_witness:
  "run [Get 10, Free (block0\<lparr>sl_len := 10\<rparr>), Report, Get 10] (NewManager, [])
     = Some (held0, zero_block block0 [replicate 1024 0])
   \<and> total_bytes NewManager \<le> total_bytes held0
   \<and> GetBlock 10 NewManager [] = Some (Inr (block0\<lparr>sl_len := 10\<rparr>), held0, [replicate 1024 0])
   \<and> (\<exists>j. find_class smallestBlockSize 0 10 = Some (int (class_size j), int j)
           \<and> total_bytes held0 = total_bytes NewManager
               + (if j < length (blocks NewManager)
                     \<and> scan_free (used NewManager) (blocks NewManager ! j) 0 = Inr None
                  then class_size j else 0))
   \<and> FreeBlock block0 NewManager [] = Some (Inl (Panic ''Tried to free an unused block''), NewManager, [])
   \<and> total_bytes NewManager = total_bytes NewManager
   \<and> TotalAllocations NewManager [] = Some (Inr (''Total memory used/allocated: 0/0'' @ newline), NewManager, [])"
  using total_bytes_monotone[of "[Get 10, Free (block0\<lparr>sl_len := 10\<rparr>), Report, Get 10]"
      NewManager "[]" held0 "zero_block block0 [replicate 1024 0]" 10
      "Inr (block0\<lparr>sl_len := 10\<rparr>)" held0 "[replicate 1024 0]"
      block0 "Inl (Panic ''Tried to free an unused block'')" NewManager "[]"
      "Inr (''Total memory used/allocated: 0/0'' @ newline)" NewManager "[]"]
    scenario_run scenario_get scenario_free_new[of "[]"] report_NewManager[of "[]"]
  by simp

end
